theory Spec2Isabelle
  imports Complex_Main "HOL-Library.Multiset"
begin

section \<open>JavaScript numbers\<close>

text \<open>
  The ledger stores amounts, budgets and the savings goal as JavaScript numbers, that is
  IEEE-754 binary64 values. A number is modelled as \<open>NaN\<close>, one of the two infinities,
  or a finite value carried as the rational it denotes; the sign of zero is left out
  (\<open>Fin 0\<close> stands for both zeros, which compare equal in JavaScript).

  The result of \<open>+\<close> and \<open>-\<close> is rounded by \<open>rnd\<close>: to 53 significant bits, to nearest
  with ties to even, with overflow to an infinity from \<open>2 ^ 1024\<close> on. \<open>rnd\<close> has no
  bound on the exponent from below, and on binary64 values none is needed: their sums and
  differences are multiples of \<open>2 ^ -1074\<close>, and such a multiple under \<open>2 ^ -1022\<close> is a
  binary64 value itself. The value of a decimal literal is any rational, and
  \<open>rnd_literal\<close>, which \<open>parseFloat\<close> rounds with, underflows gradually: under
  \<open>2 ^ -1022\<close> it rounds to a multiple of \<open>2 ^ -1074\<close>, so that \<open>1e-324\<close> is read as 0.
\<close>

datatype number = NaN | PosInf | NegInf | Fin rat

text \<open>\<open>lg2 n\<close> is the position of the leading bit of \<open>n\<close>, for \<open>n \<ge> 1\<close>.\<close>

function lg2 :: "int \<Rightarrow> int" where
  "lg2 n = (if n < 2 then 0 else 1 + lg2 (n div 2))"
  by pat_completeness auto
termination
  by (relation "measure nat") auto

declare lg2.simps [simp del]

text \<open>The binary exponent of a positive rational: \<open>2 ^ expo x \<le> x < 2 ^ (expo x + 1)\<close>.\<close>

definition expo :: "rat \<Rightarrow> int" where
  "expo x = (if 1 \<le> x then lg2 \<lfloor>x\<rfloor>
             else let k = lg2 \<lfloor>1 / x\<rfloor>
                  in if x * 2 ^ nat k = 1 then - k else - k - 1)"

definition round_half_even :: "rat \<Rightarrow> int" where
  "round_half_even y = (let f = \<lfloor>y\<rfloor>; r = y - of_int f
      in if r < 1 / 2 then f else if 1 / 2 < r then f + 1
         else if even f then f else f + 1)"

definition scale2 :: "rat \<Rightarrow> int \<Rightarrow> rat" where
  "scale2 x e = (if 0 \<le> e then x * 2 ^ nat e else x / 2 ^ nat (- e))"

text \<open>Rounding a positive rational to binary64; \<open>None\<close> is overflow.\<close>

definition round_pos :: "rat \<Rightarrow> rat option" where
  "round_pos x = (let e = expo x; m = round_half_even (scale2 x (52 - e))
                  in if 1024 \<le> e \<or> (e = 1023 \<and> m = 2 ^ 53) then None
                     else Some (scale2 (of_int m) (e - 52)))"

definition rnd :: "rat \<Rightarrow> number" where
  "rnd x = (if x = 0 then Fin 0
            else if 0 < x then (case round_pos x of None \<Rightarrow> PosInf | Some r \<Rightarrow> Fin r)
            else (case round_pos (- x) of None \<Rightarrow> NegInf | Some r \<Rightarrow> Fin (- r)))"

text \<open>Rounding the value of a decimal literal, with gradual underflow.\<close>

definition rnd_literal :: "rat \<Rightarrow> number" where
  "rnd_literal x =
     (if x \<noteq> 0 \<and> expo \<bar>x\<bar> < - 1022
      then Fin (of_int (round_half_even (scale2 x 1074)) / 2 ^ 1074)
      else rnd x)"

fun js_neg :: "number \<Rightarrow> number" where
  "js_neg NaN = NaN"
| "js_neg PosInf = NegInf"
| "js_neg NegInf = PosInf"
| "js_neg (Fin a) = Fin (- a)"

text \<open>The operator \<open>+\<close> on two numbers.\<close>

fun js_add :: "number \<Rightarrow> number \<Rightarrow> number" where
  "js_add (Fin a) (Fin b) = rnd (a + b)"
| "js_add NaN y = NaN"
| "js_add x NaN = NaN"
| "js_add PosInf NegInf = NaN"
| "js_add NegInf PosInf = NaN"
| "js_add PosInf y = PosInf"
| "js_add NegInf y = NegInf"
| "js_add (Fin a) y = y"

text \<open>The operator \<open>-\<close> on two numbers.\<close>

definition js_sub :: "number \<Rightarrow> number \<Rightarrow> number" where
  "js_sub x y = js_add x (js_neg y)"

text \<open>The operator \<open><\<close>; every comparison with \<open>NaN\<close> is false.\<close>

fun js_lt :: "number \<Rightarrow> number \<Rightarrow> bool" where
  "js_lt (Fin a) (Fin b) = (a < b)"
| "js_lt NaN y = False"
| "js_lt x NaN = False"
| "js_lt x NegInf = False"
| "js_lt PosInf y = False"
| "js_lt NegInf y = True"
| "js_lt (Fin a) PosInf = True"

definition js_gt :: "number \<Rightarrow> number \<Rightarrow> bool" where
  "js_gt x y = js_lt y x"

text \<open>The operator \<open><=\<close>.\<close>

definition js_le :: "number \<Rightarrow> number \<Rightarrow> bool" where
  "js_le x y = (x \<noteq> NaN \<and> y \<noteq> NaN \<and> (js_lt x y \<or> x = y))"

definition isNaN :: "number \<Rightarrow> bool" where
  "isNaN x = (x = NaN)"

subsection \<open>parseFloat\<close>

text \<open>
  \<open>parseFloat\<close> skips leading white space, reads the longest prefix that is a decimal
  literal (an optional sign, then \<open>Infinity\<close> or digits with an optional fraction and an
  optional exponent) and rounds its value; without such a prefix the result is \<open>NaN\<close>.
  Strings are byte strings here, so only the ASCII white space characters are skipped.
\<close>

definition is_space :: "char \<Rightarrow> bool" where
  "is_space c = (c \<in> set [CHR '' '', CHR 0x09, CHR 0x0A, CHR 0x0B, CHR 0x0C, CHR 0x0D])"

definition is_digit :: "char \<Rightarrow> bool" where
  "is_digit c = (c \<in> set ''0123456789'')"

definition digits_val :: "string \<Rightarrow> nat" where
  "digits_val ds = foldl (\<lambda>a c. 10 * a + (of_char c - 48)) 0 ds"

definition scale10 :: "rat \<Rightarrow> int \<Rightarrow> rat" where
  "scale10 x e = (if 0 \<le> e then x * 10 ^ nat e else x / 10 ^ nat (- e))"

definition strip_sign :: "string \<Rightarrow> bool \<times> string" where
  "strip_sign s = (case s of
      [] \<Rightarrow> (False, [])
    | c # r \<Rightarrow> if c = CHR ''-'' then (True, r)
               else if c = CHR ''+'' then (False, r) else (False, s))"

definition exponent_part :: "string \<Rightarrow> int" where
  "exponent_part s = (case s of
      [] \<Rightarrow> 0
    | c # r \<Rightarrow>
        if c = CHR ''e'' \<or> c = CHR ''E''
        then (let (neg, r') = strip_sign r; ds = takeWhile is_digit r'
              in if ds = [] then 0
                 else if neg then - int (digits_val ds) else int (digits_val ds))
        else 0)"

definition parseFloat :: "string \<Rightarrow> number" where
  "parseFloat inputString =
    (let (neg, s1) = strip_sign (dropWhile is_space inputString)
     in if take 8 s1 = ''Infinity'' then (if neg then NegInf else PosInf)
        else
          let ip = takeWhile is_digit s1;
              s2 = dropWhile is_digit s1;
              (fp, s3) = (case s2 of
                             [] \<Rightarrow> ([], [])
                           | c # r \<Rightarrow> if c = CHR ''.''
                                      then (takeWhile is_digit r, dropWhile is_digit r)
                                      else ([], s2))
          in if ip = [] \<and> fp = [] then NaN
             else
               let v = scale10 (of_nat (digits_val (ip @ fp)))
                               (exponent_part s3 - int (length fp))
               in rnd_literal (if neg then - v else v))"

section \<open>Budgets and the savings goal\<close>

type_synonym BudgetMap = "string \<rightharpoonup> number"

text \<open>
  The \<open>onChange\<close> handler of a budget field in \<open>renderBudgetModal\<close>:
  \<^verbatim>\<open>const val = parseFloat(e.target.value);
  setBudgets(prev => ({ ...prev, [cat.id]: isNaN(val) ? 0 : val }));\<close>
\<close>

definition budget_onChange :: "BudgetMap \<Rightarrow> string \<Rightarrow> string \<Rightarrow> BudgetMap" where
  "budget_onChange prev cat_id target_value =
     (let val = parseFloat target_value
      in prev(cat_id \<mapsto> (if isNaN val then Fin 0 else val)))"

text \<open>
  The \<open>onChange\<close> handler of the savings goal field in \<open>renderSettings\<close>:
  \<^verbatim>\<open>const val = parseFloat(e.target.value);
  setSavingsGoal(isNaN(val) ? 0 : val);\<close>
  The result is the new value of the \<open>savingsGoal\<close> state.
\<close>

definition savingsGoal_onChange :: "string \<Rightarrow> number" where
  "savingsGoal_onChange target_value =
     (let val = parseFloat target_value in if isNaN val then Fin 0 else val)"

section \<open>The data model\<close>

text \<open>
  The types of \<open>types.ts\<close>. Field names carry a prefix where two records would share a
  name or where the name is taken in Isabelle (\<open>id\<close>, \<open>note\<close>, \<open>type\<close>, \<open>date\<close>).
\<close>

datatype TransactionType = EXPENSE | INCOME

record Category =
  cat_id :: string
  cat_name :: string
  cat_icon :: string
  cat_color :: string
  cat_type :: TransactionType

record Transaction =
  tx_id :: string
  amount :: number
  categoryId :: string
  date :: string
  tx_note :: string
  tx_type :: TransactionType

record DailyGroup =
  g_date :: string
  g_transactions :: "Transaction list"
  g_totalExpense :: number
  g_totalIncome :: number

datatype Language = en | de | zh

datatype SortOption =
  DATE_DESC | DATE_ASC | AMOUNT_DESC | AMOUNT_ASC | TYPE_EXPENSE | TYPE_INCOME

text \<open>The category catalog of \<open>constants.ts\<close>.\<close>

definition mk_category ::
  "string \<Rightarrow> string \<Rightarrow> string \<Rightarrow> string \<Rightarrow> TransactionType \<Rightarrow> Category" where
  "mk_category i n ic c ty =
     \<lparr>cat_id = i, cat_name = n, cat_icon = ic, cat_color = c, cat_type = ty\<rparr>"

definition EXPENSE_CATEGORIES :: "Category list" where
  "EXPENSE_CATEGORIES =
   [mk_category ''food'' ''Food & Dining'' ''Utensils'' ''bg-orange-100 text-orange-600'' EXPENSE,
    mk_category ''shopping'' ''Shopping'' ''ShoppingBag'' ''bg-pink-100 text-pink-600'' EXPENSE,
    mk_category ''transport'' ''Transport'' ''Car'' ''bg-blue-100 text-blue-600'' EXPENSE,
    mk_category ''housing'' ''Housing'' ''Home'' ''bg-indigo-100 text-indigo-600'' EXPENSE,
    mk_category ''utilities'' ''Utilities'' ''Zap'' ''bg-yellow-100 text-yellow-600'' EXPENSE,
    mk_category ''health'' ''Health'' ''HeartPulse'' ''bg-red-100 text-red-600'' EXPENSE,
    mk_category ''entertainment'' ''Entertainment'' ''Clapperboard''
      ''bg-purple-100 text-purple-600'' EXPENSE,
    mk_category ''education'' ''Education'' ''GraduationCap'' ''bg-cyan-100 text-cyan-600'' EXPENSE,
    mk_category ''travel'' ''Travel'' ''Plane'' ''bg-sky-100 text-sky-600'' EXPENSE,
    mk_category ''social'' ''Social'' ''Gift'' ''bg-rose-100 text-rose-600'' EXPENSE,
    mk_category ''coffee'' ''Coffee'' ''Coffee'' ''bg-amber-100 text-amber-700'' EXPENSE,
    mk_category ''tech'' ''Digital'' ''Smartphone'' ''bg-gray-100 text-gray-600'' EXPENSE]"

definition INCOME_CATEGORIES :: "Category list" where
  "INCOME_CATEGORIES =
   [mk_category ''salary'' ''Salary'' ''Briefcase'' ''bg-emerald-100 text-emerald-600'' INCOME,
    mk_category ''investment'' ''Investment'' ''BadgeDollarSign''
      ''bg-green-100 text-green-600'' INCOME,
    mk_category ''other_income'' ''Other'' ''Wallet'' ''bg-teal-100 text-teal-600'' INCOME]"

definition ALL_CATEGORIES :: "Category list" where
  "ALL_CATEGORIES = EXPENSE_CATEGORIES @ INCOME_CATEGORIES"

section \<open>Dates\<close>

text \<open>
  \<open>Date\<close> is a built-in of the JavaScript host, and what it answers depends on the
  host's time zone. The functions of the ledger take the host as a parameter:
  \<^item> \<open>parse_time h s\<close> is the time value of \<open>new Date(s)\<close> in milliseconds since the
    epoch, \<open>None\<close> for an Invalid Date;
  \<^item> \<open>local_year\<close>, \<open>local_month\<close> (from 0) and \<open>local_day\<close> are \<open>getFullYear\<close>,
    \<open>getMonth\<close> and \<open>getDate\<close> of a time value, in local time;
  \<^item> \<open>month_start h y m\<close> is the time value of \<open>new Date(y, m, 1)\<close>;
  \<^item> \<open>to_ISO h t\<close> is \<open>toISOString\<close> of a time value.
  The claims are proved for every host. The host \<open>utc_host\<close> below, whose local zone is
  UTC, is the one the concrete examples run in.
\<close>

record host =
  parse_time :: "string \<Rightarrow> int option"
  local_year :: "int \<Rightarrow> int"
  local_month :: "int \<Rightarrow> nat"
  local_day :: "int \<Rightarrow> nat"
  month_start :: "int \<Rightarrow> nat \<Rightarrow> int"
  to_ISO :: "int \<Rightarrow> string"

text \<open>\<open>new Date(s).getTime()\<close>: a number, \<open>NaN\<close> for an Invalid Date.\<close>

definition getTime :: "host \<Rightarrow> string \<Rightarrow> number" where
  "getTime h s = (case parse_time h s of None \<Rightarrow> NaN | Some t \<Rightarrow> Fin (of_int t))"

text \<open>
  \<open>getFullYear\<close>, \<open>getMonth\<close> and \<open>getDate\<close> of \<open>new Date(s)\<close>; \<open>None\<close> stands for
  the \<open>NaN\<close> an Invalid Date answers, which is equal to nothing and less than nothing.
\<close>

definition getFullYear :: "host \<Rightarrow> string \<Rightarrow> int option" where
  "getFullYear h s = map_option (local_year h) (parse_time h s)"

definition getMonth :: "host \<Rightarrow> string \<Rightarrow> nat option" where
  "getMonth h s = map_option (local_month h) (parse_time h s)"

definition getDate :: "host \<Rightarrow> string \<Rightarrow> nat option" where
  "getDate h s = map_option (local_day h) (parse_time h s)"

text \<open>The operator \<open>===\<close> on two such answers: \<open>NaN === NaN\<close> is false.\<close>

definition strict_eq :: "'a option \<Rightarrow> 'a option \<Rightarrow> bool" where
  "strict_eq a b = (case (a, b) of (Some x, Some y) \<Rightarrow> x = y | _ \<Rightarrow> False)"

definition month_abbr :: "string list" where
  "month_abbr = [''Jan'', ''Feb'', ''Mar'', ''Apr'', ''May'', ''Jun'',
                 ''Jul'', ''Aug'', ''Sep'', ''Oct'', ''Nov'', ''Dec'']"

definition digit_char :: "nat \<Rightarrow> char" where
  "digit_char d = ''0123456789'' ! (d mod 10)"

definition two_digits :: "nat \<Rightarrow> string" where
  "two_digits n = [digit_char (n div 10 mod 10), digit_char (n mod 10)]"

text \<open>
  \<open>toLocaleDateString('en-US', { month: 'short', year: '2-digit' })\<close>, for example
  \<open>Oct 23\<close>; an Invalid Date prints as \<open>Invalid Date\<close>. Years are taken from 1 on.
\<close>

definition monthKey_of :: "host \<Rightarrow> string \<Rightarrow> string" where
  "monthKey_of h s = (case parse_time h s of
      None \<Rightarrow> ''Invalid Date''
    | Some t \<Rightarrow> month_abbr ! (local_month h t mod 12) @ '' ''
                @ two_digits (nat (local_year h t mod 100)))"

text \<open>\<open>new Date(date.getFullYear(), date.getMonth(), 1).getTime()\<close>.\<close>

definition sortKey_of :: "host \<Rightarrow> string \<Rightarrow> number" where
  "sortKey_of h s = (case parse_time h s of
      None \<Rightarrow> NaN
    | Some t \<Rightarrow> Fin (of_int (month_start h (local_year h t) (local_month h t))))"

subsection \<open>A host in the UTC zone\<close>

text \<open>
  The days between the epoch and a civil date of the proleptic Gregorian calendar, and
  back (months from 1).
\<close>

definition days_from_civil :: "int \<Rightarrow> int \<Rightarrow> int \<Rightarrow> int" where
  "days_from_civil y m d =
     (let y' = (if m \<le> 2 then y - 1 else y);
          era = y' div 400;
          yoe = y' - era * 400;
          doy = (153 * (if 2 < m then m - 3 else m + 9) + 2) div 5 + d - 1;
          doe = yoe * 365 + yoe div 4 - yoe div 100 + doy
      in era * 146097 + doe - 719468)"

definition civil_of_month :: "int \<Rightarrow> int \<Rightarrow> int \<Rightarrow> int \<times> int \<times> int" where
  "civil_of_month y doy mp =
     (if mp < 10 then (y, mp + 3, doy - (153 * mp + 2) div 5 + 1)
      else (y + 1, mp - 9, doy - (153 * mp + 2) div 5 + 1))"

definition civil_of_year :: "int \<Rightarrow> int \<Rightarrow> int \<Rightarrow> int \<times> int \<times> int" where
  "civil_of_year era doe yoe =
     civil_of_month (yoe + era * 400) (doe - (365 * yoe + yoe div 4 - yoe div 100))
       ((5 * (doe - (365 * yoe + yoe div 4 - yoe div 100)) + 2) div 153)"

definition civil_of_era :: "int \<Rightarrow> int \<Rightarrow> int \<times> int \<times> int" where
  "civil_of_era era doe =
     civil_of_year era doe ((doe - doe div 1460 + doe div 36524 - doe div 146096) div 365)"

definition civil_from_days :: "int \<Rightarrow> int \<times> int \<times> int" where
  "civil_from_days z = civil_of_era ((z + 719468) div 146097) ((z + 719468) mod 146097)"

definition ms_per_day :: int where
  "ms_per_day = 86400000"

definition num_of :: "string \<Rightarrow> int option" where
  "num_of ds = (if ds \<noteq> [] \<and> list_all is_digit ds then Some (int (digits_val ds)) else None)"

definition days_in_month :: "int \<Rightarrow> int \<Rightarrow> int" where
  "days_in_month y m =
     (if m = 2 then (if y mod 4 = 0 \<and> (y mod 100 \<noteq> 0 \<or> y mod 400 = 0) then 29 else 28)
      else if m = 4 \<or> m = 6 \<or> m = 9 \<or> m = 11 then 30 else 31)"

text \<open>The fraction \<open>.sss\<close> and the zone designator \<open>Z\<close>, both optional.\<close>

definition parse_fraction :: "string \<Rightarrow> int option" where
  "parse_fraction r =
     (let r' = (if r \<noteq> [] \<and> last r = CHR ''Z'' then butlast r else r)
      in if r' = [] then Some 0
         else if length r' = 4 \<and> hd r' = CHR ''.'' then num_of (tl r')
         else None)"

text \<open>The seconds \<open>:ss\<close>, optional, and what follows them.\<close>

definition parse_seconds :: "string \<Rightarrow> int option" where
  "parse_seconds r =
     (if r \<noteq> [] \<and> hd r = CHR '':''
      then (case (num_of (take 2 (tl r)), parse_fraction (drop 3 r)) of
              (Some sec, Some ms) \<Rightarrow> if sec \<le> 59 then Some (sec * 1000 + ms) else None
            | _ \<Rightarrow> None)
      else parse_fraction r)"

text \<open>The time of day \<open>THH:mm\<close> and what follows; a date alone is midnight.\<close>

definition parse_time_of_day :: "string \<Rightarrow> int option" where
  "parse_time_of_day r =
     (if r = [] then Some 0
      else if length r \<ge> 6 \<and> r ! 0 = CHR ''T'' \<and> r ! 3 = CHR '':''
      then (case (num_of (take 2 (drop 1 r)), num_of (take 2 (drop 4 r)),
                  parse_seconds (drop 6 r)) of
              (Some hh, Some mm, Some ms) \<Rightarrow>
                if hh \<le> 23 \<and> mm \<le> 59 then Some (hh * 3600000 + mm * 60000 + ms) else None
            | _ \<Rightarrow> None)
      else None)"

text \<open>
  The date-time strings \<open>YYYY-MM-DD\<close>, \<open>YYYY-MM-DDTHH:mm\<close>, \<open>YYYY-MM-DDTHH:mm:ss\<close> and
  \<open>YYYY-MM-DDTHH:mm:ss.sss\<close>, with or without a final \<open>Z\<close>: the strings a
  \<open>datetime-local\<close> field and \<open>toISOString\<close> produce. Every other string is an Invalid
  Date for this host.
\<close>

definition utc_parse :: "string \<Rightarrow> int option" where
  "utc_parse s =
     (if length s \<ge> 10 \<and> s ! 4 = CHR ''-'' \<and> s ! 7 = CHR ''-''
      then (case (num_of (take 4 s), num_of (take 2 (drop 5 s)), num_of (take 2 (drop 8 s)),
                  parse_time_of_day (drop 10 s)) of
              (Some y, Some m, Some d, Some ms) \<Rightarrow>
                if 1 \<le> m \<and> m \<le> 12 \<and> 1 \<le> d \<and> d \<le> days_in_month y m
                then Some (days_from_civil y m d * ms_per_day + ms) else None
            | _ \<Rightarrow> None)
      else None)"

definition utc_year :: "int \<Rightarrow> int" where
  "utc_year t = fst (civil_from_days (t div ms_per_day))"

definition utc_month :: "int \<Rightarrow> nat" where
  "utc_month t = nat (fst (snd (civil_from_days (t div ms_per_day))) - 1)"

definition utc_day :: "int \<Rightarrow> nat" where
  "utc_day t = nat (snd (snd (civil_from_days (t div ms_per_day))))"

text \<open>\<open>new Date(y, m, 1)\<close> reads a year from 0 to 99 as a year of the 1900s.\<close>

definition utc_month_start :: "int \<Rightarrow> nat \<Rightarrow> int" where
  "utc_month_start y m =
     days_from_civil (if 0 \<le> y \<and> y \<le> 99 then 1900 + y else y) (int m + 1) 1 * ms_per_day"

definition three_digits :: "nat \<Rightarrow> string" where
  "three_digits n = digit_char (n div 100 mod 10) # two_digits n"

definition four_digits :: "nat \<Rightarrow> string" where
  "four_digits n = digit_char (n div 1000 mod 10) # three_digits n"

text \<open>\<open>toISOString\<close>, for the years 0 to 9999.\<close>

definition utc_to_ISO :: "int \<Rightarrow> string" where
  "utc_to_ISO t =
     (let ms = nat (t mod ms_per_day)
      in four_digits (nat (utc_year t)) @ ''-'' @ two_digits (utc_month t + 1) @ ''-''
         @ two_digits (utc_day t) @ ''T'' @ two_digits (ms div 3600000) @ '':''
         @ two_digits (ms div 60000 mod 60) @ '':'' @ two_digits (ms div 1000 mod 60)
         @ ''.'' @ three_digits (ms mod 1000) @ ''Z'')"

definition utc_host :: host where
  "utc_host = \<lparr>parse_time = utc_parse, local_year = utc_year, local_month = utc_month,
               local_day = utc_day, month_start = utc_month_start, to_ISO = utc_to_ISO\<rparr>"

section \<open>Array.prototype.sort\<close>

text \<open>
  \<open>sort\<close> is given a comparator that answers a number; an element moves behind another
  one only when the comparator of the two is positive (a \<open>NaN\<close> answer counts as 0). The
  sort is stable, so for a comparator that is a consistent ordering its result is
  determined, and it is the result of this insertion sort. For a comparator that is not
  consistent the standard leaves the order to the implementation; the model then fixes
  one of the permitted results.
\<close>

fun js_insert :: "('a \<Rightarrow> 'a \<Rightarrow> number) \<Rightarrow> 'a \<Rightarrow> 'a list \<Rightarrow> 'a list" where
  "js_insert cmp x [] = [x]"
| "js_insert cmp x (y # ys) =
     (if js_gt (cmp x y) (Fin 0) then y # js_insert cmp x ys else x # y # ys)"

definition js_sort :: "('a \<Rightarrow> 'a \<Rightarrow> number) \<Rightarrow> 'a list \<Rightarrow> 'a list" where
  "js_sort cmp xs = foldr (js_insert cmp) xs []"

section \<open>The derived state of \<open>App.tsx\<close>\<close>

text \<open>
  \<^verbatim>\<open>transactions.reduce((acc, t) =>
    t.type === TransactionType.INCOME ? acc + t.amount : acc - t.amount, 0)\<close>
\<close>

definition signed_step :: "number \<Rightarrow> Transaction \<Rightarrow> number" where
  "signed_step acc t = (if tx_type t = INCOME then js_add acc (amount t) else js_sub acc (amount t))"

definition totalBalance :: "Transaction list \<Rightarrow> number" where
  "totalBalance transactions = foldl signed_step (Fin 0) transactions"

definition totalIncome :: "Transaction list \<Rightarrow> number" where
  "totalIncome transactions =
     foldl (\<lambda>acc t. js_add acc (amount t)) (Fin 0) (filter (\<lambda>t. tx_type t = INCOME) transactions)"

definition totalExpense :: "Transaction list \<Rightarrow> number" where
  "totalExpense transactions =
     foldl (\<lambda>acc t. js_add acc (amount t)) (Fin 0) (filter (\<lambda>t. tx_type t = EXPENSE) transactions)"

text \<open>The comparators of \<open>sortedTransactions\<close>, one for each sort option.\<close>

definition comparator :: "host \<Rightarrow> SortOption \<Rightarrow> Transaction \<Rightarrow> Transaction \<Rightarrow> number" where
  "comparator h sortOption a b = (case sortOption of
      DATE_ASC \<Rightarrow> js_sub (getTime h (date a)) (getTime h (date b))
    | AMOUNT_DESC \<Rightarrow> js_sub (amount b) (amount a)
    | AMOUNT_ASC \<Rightarrow> js_sub (amount a) (amount b)
    | TYPE_EXPENSE \<Rightarrow>
        if tx_type a = tx_type b then js_sub (getTime h (date b)) (getTime h (date a))
        else if tx_type a = EXPENSE then Fin (- 1) else Fin 1
    | TYPE_INCOME \<Rightarrow>
        if tx_type a = tx_type b then js_sub (getTime h (date b)) (getTime h (date a))
        else if tx_type a = INCOME then Fin (- 1) else Fin 1
    | DATE_DESC \<Rightarrow> js_sub (getTime h (date b)) (getTime h (date a)))"

text \<open>\<open>sortedTransactions\<close>, as a function of the list it reads.\<close>

definition sortedTransactions :: "host \<Rightarrow> SortOption \<Rightarrow> Transaction list \<Rightarrow> Transaction list" where
  "sortedTransactions h sortOption transactions = js_sort (comparator h sortOption) transactions"

text \<open>
  The same with the arrays in a store, to tell the array that is sorted from the array of
  the state: an address is an index into the store, \<open>[...transactions]\<close> allocates a
  new array next to the old ones, and \<open>sort\<close> sorts the array at its address in place
  and answers that address.
\<close>

type_synonym 'a store = "'a list list"

definition spread :: "'a store \<Rightarrow> nat \<Rightarrow> 'a store \<times> nat" where
  "spread st a = (st @ [st ! a], length st)"

definition sort_in_place :: "('a \<Rightarrow> 'a \<Rightarrow> number) \<Rightarrow> 'a store \<Rightarrow> nat \<Rightarrow> 'a store \<times> nat" where
  "sort_in_place cmp st a = (st[a := js_sort cmp (st ! a)], a)"

definition sortedTransactions_store ::
  "host \<Rightarrow> SortOption \<Rightarrow> Transaction store \<Rightarrow> nat \<Rightarrow> Transaction store \<times> nat" where
  "sortedTransactions_store h sortOption st transactions =
     (let (st1, sorted_copy) = spread st transactions
      in sort_in_place (comparator h sortOption) st1 sorted_copy)"

text \<open>
  \<open>groupedTransactions\<close>. For each transaction the first group of the same local day is
  looked up (\<open>groups.find\<close>), a new group is pushed at the end when there is none, and
  the transaction is added to the group and to one of its two totals.
\<close>

definition same_day :: "host \<Rightarrow> string \<Rightarrow> string \<Rightarrow> bool" where
  "same_day h g_d t_d =
     (strict_eq (getFullYear h g_d) (getFullYear h t_d)
      \<and> strict_eq (getMonth h g_d) (getMonth h t_d)
      \<and> strict_eq (getDate h g_d) (getDate h t_d))"

definition group_push :: "Transaction \<Rightarrow> DailyGroup \<Rightarrow> DailyGroup" where
  "group_push t g =
     (if tx_type t = EXPENSE
      then g\<lparr>g_transactions := g_transactions g @ [t],
             g_totalExpense := js_add (g_totalExpense g) (amount t)\<rparr>
      else g\<lparr>g_transactions := g_transactions g @ [t],
             g_totalIncome := js_add (g_totalIncome g) (amount t)\<rparr>)"

fun group_step :: "host \<Rightarrow> Transaction \<Rightarrow> DailyGroup list \<Rightarrow> DailyGroup list" where
  "group_step h t [] =
     [group_push t \<lparr>g_date = date t, g_transactions = [], g_totalExpense = Fin 0,
                    g_totalIncome = Fin 0\<rparr>]"
| "group_step h t (g # groups) =
     (if same_day h (g_date g) (date t) then group_push t g # groups
      else g # group_step h t groups)"

definition groupedTransactions :: "host \<Rightarrow> Transaction list \<Rightarrow> DailyGroup list" where
  "groupedTransactions h sortedTxs = foldl (\<lambda>groups t. group_step h t groups) [] sortedTxs"

section \<open>The aggregations of \<open>StatsChart\<close>\<close>

text \<open>
  \<open>expenseData\<close>: the expenses by category, for the pie chart. \<open>t\<close> is the translation
  function the component is given. A transaction whose category is not in the catalog is
  skipped; the others are added to the entry of their category name, which is pushed at
  the end when it is new. The entries are then sorted by \<open>b.value - a.value\<close>.
\<close>

record ExpenseEntry =
  e_name :: string
  e_value :: number
  e_color :: string

definition parseColorClass :: "string \<Rightarrow> string" where
  "parseColorClass colorClass = ''#8884d8''"

fun expense_add :: "string \<Rightarrow> number \<Rightarrow> string \<Rightarrow> ExpenseEntry list \<Rightarrow> ExpenseEntry list" where
  "expense_add catName v c [] = [\<lparr>e_name = catName, e_value = v, e_color = c\<rparr>]"
| "expense_add catName v c (e # acc) =
     (if e_name e = catName then e\<lparr>e_value := js_add (e_value e) v\<rparr> # acc
      else e # expense_add catName v c acc)"

definition catName_of :: "(string \<Rightarrow> string) \<Rightarrow> Category \<Rightarrow> string" where
  "catName_of t category =
     (if t (''cat_'' @ cat_id category) = [] then cat_name category
      else t (''cat_'' @ cat_id category))"

text \<open>\<open>ALL_CATEGORIES.find(c => c.id === curr.categoryId)\<close>\<close>

definition resolve :: "Transaction \<Rightarrow> Category option" where
  "resolve curr_tx = find (\<lambda>c. cat_id c = categoryId curr_tx) ALL_CATEGORIES"

definition expense_step ::
  "(string \<Rightarrow> string) \<Rightarrow> ExpenseEntry list \<Rightarrow> Transaction \<Rightarrow> ExpenseEntry list" where
  "expense_step t acc curr_tx =
     (case resolve curr_tx of
        None \<Rightarrow> acc
      | Some category \<Rightarrow>
          expense_add (catName_of t category) (amount curr_tx)
            (parseColorClass (cat_color category)) acc)"

definition expenseData :: "(string \<Rightarrow> string) \<Rightarrow> Transaction list \<Rightarrow> ExpenseEntry list" where
  "expenseData t transactions =
     js_sort (\<lambda>a b. js_sub (e_value b) (e_value a))
       (foldl (expense_step t) [] (filter (\<lambda>tx. tx_type tx = EXPENSE) transactions))"

text \<open>
  \<open>monthlyData\<close>: income, expense and surplus by month. The object \<open>data\<close> is keyed by
  the month label and keeps its keys in the order they were added, so it is the list of
  its values, each carrying its key in \<open>m_month\<close>. The values are then sorted by
  \<open>a.sortKey - b.sortKey\<close>.
\<close>

record MonthEntry =
  m_month :: string
  m_income :: number
  m_expense :: number
  m_surplus :: number
  m_sortKey :: number

definition month_apply :: "Transaction \<Rightarrow> MonthEntry \<Rightarrow> MonthEntry" where
  "month_apply tx e =
     (if tx_type tx = INCOME
      then e\<lparr>m_income := js_add (m_income e) (amount tx),
             m_surplus := js_add (m_surplus e) (amount tx)\<rparr>
      else e\<lparr>m_expense := js_add (m_expense e) (amount tx),
             m_surplus := js_sub (m_surplus e) (amount tx)\<rparr>)"

fun month_add :: "string \<Rightarrow> number \<Rightarrow> Transaction \<Rightarrow> MonthEntry list \<Rightarrow> MonthEntry list" where
  "month_add monthKey sortKey tx [] =
     [month_apply tx \<lparr>m_month = monthKey, m_income = Fin 0, m_expense = Fin 0,
                      m_surplus = Fin 0, m_sortKey = sortKey\<rparr>]"
| "month_add monthKey sortKey tx (e # data) =
     (if m_month e = monthKey then month_apply tx e # data
      else e # month_add monthKey sortKey tx data)"

definition month_step :: "host \<Rightarrow> MonthEntry list \<Rightarrow> Transaction \<Rightarrow> MonthEntry list" where
  "month_step h data tx = month_add (monthKey_of h (date tx)) (sortKey_of h (date tx)) tx data"

definition monthlyData :: "host \<Rightarrow> Transaction list \<Rightarrow> MonthEntry list" where
  "monthlyData h transactions =
     js_sort (\<lambda>a b. js_sub (m_sortKey a) (m_sortKey b)) (foldl (month_step h) [] transactions)"

text \<open>
  \<open>netAssetData\<close>: the running balance at the end of each month of \<open>currentYear\<close>,
  starting from the signed sum of the transactions of earlier years.
\<close>

record NetAssetPoint =
  p_month :: string
  p_netAsset :: number

definition startBalance :: "host \<Rightarrow> Transaction list \<Rightarrow> int \<Rightarrow> number" where
  "startBalance h transactions currentYear =
     foldl signed_step (Fin 0)
       (filter (\<lambda>tx. case getFullYear h (date tx) of None \<Rightarrow> False | Some y \<Rightarrow> y < currentYear)
          transactions)"

definition monthlyTransactions :: "host \<Rightarrow> Transaction list \<Rightarrow> int \<Rightarrow> nat \<Rightarrow> Transaction list" where
  "monthlyTransactions h transactions currentYear monthIndex =
     filter (\<lambda>tx. strict_eq (getFullYear h (date tx)) (Some currentYear)
                 \<and> strict_eq (getMonth h (date tx)) (Some monthIndex)) transactions"

definition monthlySurplus :: "host \<Rightarrow> Transaction list \<Rightarrow> int \<Rightarrow> nat \<Rightarrow> number" where
  "monthlySurplus h transactions currentYear monthIndex =
     foldl signed_step (Fin 0) (monthlyTransactions h transactions currentYear monthIndex)"

definition monthName :: "host \<Rightarrow> int \<Rightarrow> nat \<Rightarrow> string" where
  "monthName h currentYear monthIndex =
     month_abbr ! (local_month h (month_start h currentYear monthIndex) mod 12)"

fun net_points ::
  "host \<Rightarrow> Transaction list \<Rightarrow> int \<Rightarrow> number \<Rightarrow> nat list \<Rightarrow> NetAssetPoint list" where
  "net_points h transactions currentYear runningBalance [] = []"
| "net_points h transactions currentYear runningBalance (monthIndex # months) =
     (let runningBalance' =
            js_add runningBalance (monthlySurplus h transactions currentYear monthIndex)
      in \<lparr>p_month = monthName h currentYear monthIndex, p_netAsset = runningBalance'\<rparr>
         # net_points h transactions currentYear runningBalance' months)"

definition netAssetData :: "host \<Rightarrow> Transaction list \<Rightarrow> int \<Rightarrow> NetAssetPoint list" where
  "netAssetData h transactions currentYear =
     net_points h transactions currentYear (startBalance h transactions currentYear) [0..<12]"

section \<open>Saving a transaction\<close>

text \<open>
  \<open>handleSaveTransaction\<close> reads the form (the amount as the string of the input
  field) and the clock, and sets the transaction list. \<open>toISOString\<close> throws a
  \<open>RangeError\<close> on an Invalid Date; nothing catches it and no state is set then.
\<close>

datatype js_error = RangeError

record Form =
  f_amount :: string
  f_note :: string
  selectedCategory :: string
  f_type :: TransactionType
  f_date :: string
  editingTransaction :: "Transaction option"

fun digits_of :: "nat \<Rightarrow> string" where
  "digits_of n = (if n < 10 then [digit_char n] else digits_of (n div 10) @ [digit_char (n mod 10)])"

declare digits_of.simps [simp del]

definition new_transaction :: "nat \<Rightarrow> Form \<Rightarrow> string \<Rightarrow> Transaction" where
  "new_transaction now form timestamp =
     \<lparr>tx_id = digits_of now,
      amount = parseFloat (f_amount form),
      categoryId = selectedCategory form,
      date = timestamp,
      tx_note = f_note form,
      tx_type = f_type form\<rparr>"

definition update_transaction :: "Form \<Rightarrow> string \<Rightarrow> Transaction \<Rightarrow> Transaction" where
  "update_transaction form timestamp t =
     t\<lparr>amount := parseFloat (f_amount form),
       categoryId := selectedCategory form,
       date := timestamp,
       tx_note := f_note form,
       tx_type := f_type form\<rparr>"

definition handleSaveTransaction ::
  "host \<Rightarrow> nat \<Rightarrow> Form \<Rightarrow> Transaction list \<Rightarrow> js_error + Transaction list" where
  "handleSaveTransaction h now form prev =
     (if f_amount form = [] \<or> js_le (parseFloat (f_amount form)) (Fin 0) then Inr prev
      else (case parse_time h (f_date form) of
              None \<Rightarrow> Inl RangeError
            | Some time \<Rightarrow>
                (case editingTransaction form of
                   Some editing \<Rightarrow>
                     Inr (map (\<lambda>t. if tx_id t = tx_id editing
                                    then update_transaction form (to_ISO h time) t else t) prev)
                 | None \<Rightarrow> Inr (new_transaction now form (to_ISO h time) # prev))))"

section \<open>Loading the state from local storage\<close>

text \<open>
  The effect that runs on mount. \<open>localStorage.getItem\<close> answers \<open>null\<close> (here
  \<open>None\<close>) or a string, and an empty string is falsy. \<open>JSON.parse\<close> throws (here
  \<open>None\<close>) or answers a JSON value, which the effect puts into the state unchecked: it
  may be a value of the type the state declares, or any other value (\<open>null\<close>, a number,
  an object where an array is expected). \<open>JSON.parse\<close> is a parameter, one for each of
  the two types it is read at. \<open>parseFloat\<close> never throws.
\<close>

datatype 'a stored = Of_type 'a | Other_value

record AppState =
  transactions :: "Transaction list stored"
  budgets :: "BudgetMap stored"
  savingsGoal :: number
  language :: Language

definition initial_state :: AppState where
  "initial_state = \<lparr>transactions = Of_type [], budgets = Of_type Map.empty,
                     savingsGoal = Fin 0, language = en\<rparr>"

definition language_of :: "string \<Rightarrow> Language option" where
  "language_of s = (if s = ''en'' then Some en else if s = ''de'' then Some de
                    else if s = ''zh'' then Some zh else None)"

definition load_effect ::
  "(string \<Rightarrow> Transaction list stored option) \<Rightarrow> (string \<Rightarrow> BudgetMap stored option)
     \<Rightarrow> (string \<rightharpoonup> string) \<Rightarrow> AppState \<Rightarrow> AppState" where
  "load_effect JSON_parse_transactions JSON_parse_budgets localStorage st =
     (let st1 = (case localStorage ''transactions'' of
                   None \<Rightarrow> st
                 | Some savedTransactions \<Rightarrow>
                     if savedTransactions = [] then st
                     else (case JSON_parse_transactions savedTransactions of
                             None \<Rightarrow> st
                           | Some v \<Rightarrow> st\<lparr>transactions := v\<rparr>));
          st2 = (case localStorage ''budgets'' of
                   None \<Rightarrow> st1
                 | Some savedBudgets \<Rightarrow>
                     if savedBudgets = [] then st1
                     else (case JSON_parse_budgets savedBudgets of
                             None \<Rightarrow> st1
                           | Some v \<Rightarrow> st1\<lparr>budgets := v\<rparr>));
          st3 = (case localStorage ''savingsGoal'' of
                   None \<Rightarrow> st2
                 | Some savedGoal \<Rightarrow>
                     if savedGoal = [] then st2
                     else st2\<lparr>savingsGoal := parseFloat savedGoal\<rparr>)
      in case localStorage ''language'' of
           None \<Rightarrow> st3
         | Some savedLanguage \<Rightarrow>
             (case language_of savedLanguage of
                None \<Rightarrow> st3
              | Some l \<Rightarrow> st3\<lparr>language := l\<rparr>))"

section \<open>Sample data\<close>

definition sample_store :: "Transaction store" where
  "sample_store =
     [[\<lparr>tx_id = ''1'', amount = Fin 40, categoryId = ''food'', date = ''2024-01-02T08:00'',
        tx_note = [], tx_type = EXPENSE\<rparr>,
       \<lparr>tx_id = ''2'', amount = Fin 15, categoryId = ''coffee'', date = ''2024-01-01T09:00'',
        tx_note = [], tx_type = EXPENSE\<rparr>]]"

text \<open>The form for a new expense, with the amount field holding \<open>a\<close>.\<close>

definition sample_form :: "string \<Rightarrow> Form" where
  "sample_form a = \<lparr>f_amount = a, f_note = ''lunch'', selectedCategory = ''food'',
                     f_type = EXPENSE, f_date = ''2024-01-01T09:00'', editingTransaction = None\<rparr>"

definition mk_tx ::
  "string \<Rightarrow> number \<Rightarrow> string \<Rightarrow> string \<Rightarrow> TransactionType \<Rightarrow> Transaction" where
  "mk_tx i a c d ty =
     \<lparr>tx_id = i, amount = a, categoryId = c, date = d, tx_note = [], tx_type = ty\<rparr>"

definition tx1 :: Transaction where
  "tx1 = mk_tx ''1'' (Fin 40) ''food'' ''2024-01-01T09:00'' EXPENSE"

definition tx2 :: Transaction where
  "tx2 = mk_tx ''2'' (Fin 2500) ''salary'' ''2024-01-01T18:00'' INCOME"

definition tx3 :: Transaction where
  "tx3 = mk_tx ''3'' (Fin 15) ''coffee'' ''2024-01-02T08:00'' EXPENSE"

definition tx4 :: Transaction where
  "tx4 = mk_tx ''4'' (Fin 300) ''investment'' ''2024-01-02T07:30'' INCOME"

definition sample_txs :: "Transaction list" where
  "sample_txs = [tx1, tx2, tx3, tx4]"

section \<open>Properties the claims speak of\<close>


text \<open>Every transaction of the list has a date that the host parses.\<close>

definition valid_dates :: "host \<Rightarrow> Transaction list \<Rightarrow> bool" where
  "valid_dates h txs = list_all (\<lambda>t. parse_time h (date t) \<noteq> None) txs"

text \<open>
  \<open>a\<close> may stand before \<open>b\<close> when the transactions of type \<open>first\<close> come first and,
  within a type, the later date comes first.
\<close>

definition type_then_date_desc ::
  "host \<Rightarrow> TransactionType \<Rightarrow> Transaction \<Rightarrow> Transaction \<Rightarrow> bool" where
  "type_then_date_desc h first a b =
     ((tx_type b = first \<longrightarrow> tx_type a = first)
      \<and> (tx_type a = tx_type b \<longrightarrow> js_le (getTime h (date b)) (getTime h (date a))))"

text \<open>The calendar day of a date string in local time, as the three answers of the host.\<close>

definition day_key :: "host \<Rightarrow> string \<Rightarrow> int option \<times> nat option \<times> nat option" where
  "day_key h s = (getFullYear h s, getMonth h s, getDate h s)"

text \<open>The distinct elements of a list, in the order of their first occurrence.\<close>

definition first_occ :: "'a list \<Rightarrow> 'a list" where
  "first_occ ks = foldl (\<lambda>acc k. if k \<in> set acc then acc else acc @ [k]) [] ks"

text \<open>The sum of the amounts of a list, added from the left as \<open>reduce\<close> does.\<close>

definition sum_amounts :: "Transaction list \<Rightarrow> number" where
  "sum_amounts txs = foldl (\<lambda>acc t. js_add acc (amount t)) (Fin 0) txs"

text \<open>
  A group is the group of its day in \<open>txs\<close>: its members are the transactions of \<open>txs\<close>
  on the local day of the group's date, in the order of \<open>txs\<close>, the date is the date of
  the first member, and the two totals are the sums of the members' amounts by type.
\<close>

definition group_of_day :: "host \<Rightarrow> Transaction list \<Rightarrow> DailyGroup \<Rightarrow> bool" where
  "group_of_day h txs g =
     (g_transactions g = filter (\<lambda>t. same_day h (g_date g) (date t)) txs
      \<and> g_transactions g \<noteq> []
      \<and> date (hd (g_transactions g)) = g_date g
      \<and> g_totalExpense g = sum_amounts (filter (\<lambda>t. tx_type t = EXPENSE) (g_transactions g))
      \<and> g_totalIncome g = sum_amounts (filter (\<lambda>t. tx_type t = INCOME) (g_transactions g)))"

text \<open>The value of a finite number, and the numbers that are whole and not negative.\<close>

definition val :: "number \<Rightarrow> rat" where
  "val x = (case x of Fin r \<Rightarrow> r | _ \<Rightarrow> 0)"

definition whole :: "number \<Rightarrow> bool" where
  "whole x = (case x of Fin r \<Rightarrow> 0 \<le> r \<and> r = of_int \<lfloor>r\<rfloor> | _ \<Rightarrow> False)"

text \<open>
  Amounts on which no addition rounds: whole numbers whose total is at most \<open>2 ^ 53\<close>.
\<close>

definition exact_amounts :: "Transaction list \<Rightarrow> bool" where
  "exact_amounts txs =
     (list_all (\<lambda>t. whole (amount t)) txs \<and> sum_list (map (\<lambda>t. val (amount t)) txs) \<le> 2 ^ 53)"

text \<open>
  The three sums of a list carry no rounding error: the income sum and the expense sum are
  the exact sums of the amounts, and the running signed sum is their exact difference.
\<close>

definition exact_sums :: "Transaction list \<Rightarrow> bool" where
  "exact_sums l =
     (sum_amounts (filter (\<lambda>t. tx_type t = INCOME) l)
        = Fin (sum_list (map (\<lambda>t. val (amount t)) (filter (\<lambda>t. tx_type t = INCOME) l)))
      \<and> sum_amounts (filter (\<lambda>t. tx_type t = EXPENSE) l)
        = Fin (sum_list (map (\<lambda>t. val (amount t)) (filter (\<lambda>t. tx_type t = EXPENSE) l)))
      \<and> foldl signed_step (Fin 0) l
        = Fin (sum_list (map (\<lambda>t. val (amount t)) (filter (\<lambda>t. tx_type t = INCOME) l))
               - sum_list (map (\<lambda>t. val (amount t)) (filter (\<lambda>t. tx_type t = EXPENSE) l))))"

text \<open>Amounts that are no whole numbers, and whose sums are exact all the same.\<close>

definition quarters :: "Transaction list" where
  "quarters =
     [mk_tx ''1'' (Fin (1 / 2)) ''salary'' ''2024-01-01T09:00'' INCOME,
      mk_tx ''2'' (Fin (1 / 4)) ''food'' ''2024-01-01T10:00'' EXPENSE]"

text \<open>The amounts \<open>0.1\<close>, \<open>0.3\<close> and \<open>0.2\<close>, as the form would store them.\<close>

definition tenths :: "Transaction list" where
  "tenths =
     [mk_tx ''1'' (parseFloat ''0.1'') ''salary'' ''2024-01-01T09:00'' INCOME,
      mk_tx ''2'' (parseFloat ''0.3'') ''food'' ''2024-01-01T10:00'' EXPENSE,
      mk_tx ''3'' (parseFloat ''0.2'') ''salary'' ''2024-01-01T11:00'' INCOME]"

definition amount_int :: "Transaction \<Rightarrow> int" where
  "amount_int t = \<lfloor>val (amount t)\<rfloor>"

definition is_finite :: "number \<Rightarrow> bool" where
  "is_finite x = (case x of Fin r \<Rightarrow> True | _ \<Rightarrow> False)"

text \<open>
  An entry of the breakdown is named by a list when it carries the display name of the
  catalog category of one of the list's expense transactions.
\<close>

definition named_by :: "(string \<Rightarrow> string) \<Rightarrow> Transaction list \<Rightarrow> ExpenseEntry \<Rightarrow> bool" where
  "named_by t txs e =
     list_ex (\<lambda>tx. tx_type tx = EXPENSE
                 \<and> (case resolve tx of None \<Rightarrow> False | Some c \<Rightarrow> e_name e = catName_of t c)) txs"

text \<open>
  The display names of the catalog categories that the expense transactions of a list
  resolve to.
\<close>

definition expense_names :: "(string \<Rightarrow> string) \<Rightarrow> Transaction list \<Rightarrow> string list" where
  "expense_names t txs =
     concat (map (\<lambda>tx. if tx_type tx = EXPENSE
                         then (case resolve tx of None \<Rightarrow> [] | Some c \<Rightarrow> [catName_of t c])
                         else []) txs)"

text \<open>Every transaction with a catalog category has the type of its category.\<close>

definition filed_by_type :: "Transaction list \<Rightarrow> bool" where
  "filed_by_type txs =
     list_all (\<lambda>tx. case resolve tx of None \<Rightarrow> True | Some c \<Rightarrow> cat_type c = tx_type tx) txs"

text \<open>An expense that is filed under the income category \<open>salary\<close>.\<close>

definition tx_salary_expense :: Transaction where
  "tx_salary_expense = mk_tx ''11'' (Fin 20) ''salary'' ''2024-01-04T12:00'' EXPENSE"

text \<open>A transaction of a category that is not in the catalog, and a translation table.\<close>

definition tx5 :: Transaction where
  "tx5 = mk_tx ''5'' (Fin 7) ''mystery'' ''2024-01-03T12:00'' EXPENSE"

definition tx6 :: Transaction where
  "tx6 = mk_tx ''6'' (Fin 60) ''coffee'' ''2024-01-03T13:00'' EXPENSE"

definition sample_t :: "string \<Rightarrow> string" where
  "sample_t key = (if key = ''cat_food'' then ''Essen'' else key)"

text \<open>
  The transactions the trend reads: those of a year before \<open>currentYear\<close>, and those of
  \<open>currentYear\<close> in the months \<open>lo\<close> to \<open>hi\<close> (counted from 0).
\<close>

definition before_year :: "host \<Rightarrow> int \<Rightarrow> Transaction \<Rightarrow> bool" where
  "before_year h currentYear tx =
     (case getFullYear h (date tx) of None \<Rightarrow> False | Some y \<Rightarrow> y < currentYear)"

definition in_months :: "host \<Rightarrow> int \<Rightarrow> nat \<Rightarrow> nat \<Rightarrow> Transaction \<Rightarrow> bool" where
  "in_months h currentYear lo hi tx =
     (strict_eq (getFullYear h (date tx)) (Some currentYear)
      \<and> (case getMonth h (date tx) of None \<Rightarrow> False | Some m \<Rightarrow> lo \<le> m \<and> m \<le> hi))"

text \<open>The signed sum of whole amounts: incomes count up, expenses count down.\<close>

definition signed_int :: "Transaction list \<Rightarrow> int" where
  "signed_int txs =
     sum_list (map (\<lambda>t. if tx_type t = INCOME then amount_int t else - amount_int t) txs)"

text \<open>The balance of the point of month \<open>k\<close>.\<close>

definition point :: "host \<Rightarrow> Transaction list \<Rightarrow> int \<Rightarrow> nat \<Rightarrow> number" where
  "point h txs currentYear k = p_netAsset (netAssetData h txs currentYear ! k)"

text \<open>A transaction of March 2024 and one of December 2023.\<close>

definition tx7 :: Transaction where
  "tx7 = mk_tx ''7'' (Fin 100) ''housing'' ''2024-03-05T08:00'' EXPENSE"

definition tx8 :: Transaction where
  "tx8 = mk_tx ''8'' (Fin 1000) ''salary'' ''2023-12-15T10:00'' INCOME"

definition trend_txs :: "Transaction list" where
  "trend_txs = [tx8, tx2, tx7]"

text \<open>An income of 0.1 in January 2024 and one of 0.2 in February 2024.\<close>

definition trend_tenths :: "Transaction list" where
  "trend_tenths =
     [mk_tx ''1'' (parseFloat ''0.1'') ''salary'' ''2024-01-01T09:00'' INCOME,
      mk_tx ''2'' (parseFloat ''0.2'') ''salary'' ''2024-02-01T09:00'' INCOME]"

text \<open>The calendar month of a date string in local time: its year and its month.\<close>

definition month_key :: "host \<Rightarrow> string \<Rightarrow> int option \<times> nat option" where
  "month_key h s = (getFullYear h s, getMonth h s)"

text \<open>
  The months of the list are told apart by their labels and by their first-of-month
  instants: two transactions with the same label, or the same instant, lie in the same
  calendar month. The label has two digits for the year, so this asks that the list spans
  less than a century.
\<close>

definition separate_months :: "host \<Rightarrow> Transaction list \<Rightarrow> bool" where
  "separate_months h txs =
     list_all (\<lambda>a. list_all (\<lambda>b.
        (monthKey_of h (date a) = monthKey_of h (date b)
         \<or> sortKey_of h (date a) = sortKey_of h (date b))
        \<longrightarrow> month_key h (date a) = month_key h (date b)) txs) txs"

text \<open>
  An entry as the loop builds it: it belongs to the transactions of the list that carry
  its label, has the sort key of the first of them, their income sum, their expense sum
  and their running signed sum.
\<close>

definition label_entry :: "host \<Rightarrow> Transaction list \<Rightarrow> MonthEntry \<Rightarrow> bool" where
  "label_entry h txs e =
     (let l = filter (\<lambda>t. monthKey_of h (date t) = m_month e) txs
      in l \<noteq> []
         \<and> m_sortKey e = sortKey_of h (date (hd l))
         \<and> m_income e = sum_amounts (filter (\<lambda>t. tx_type t = INCOME) l)
         \<and> m_expense e = sum_amounts (filter (\<lambda>t. tx_type t = EXPENSE) l)
         \<and> m_surplus e = foldl signed_step (Fin 0) l)"

text \<open>
  An entry is the entry of a month of the list: there is a transaction \<open>t0\<close> of the list
  whose month label and first-of-month instant it carries, and its income, expense and
  surplus are the income sum, the expense sum and the running signed sum of all the
  transactions of the list in the calendar month of \<open>t0\<close>.
\<close>

definition entry_of_month :: "host \<Rightarrow> Transaction list \<Rightarrow> MonthEntry \<Rightarrow> bool" where
  "entry_of_month h txs e =
     list_ex (\<lambda>t0.
        m_month e = monthKey_of h (date t0)
        \<and> m_sortKey e = sortKey_of h (date t0)
        \<and> m_income e = sum_amounts
              (filter (\<lambda>t. tx_type t = INCOME \<and> month_key h (date t) = month_key h (date t0)) txs)
        \<and> m_expense e = sum_amounts
              (filter (\<lambda>t. tx_type t = EXPENSE \<and> month_key h (date t) = month_key h (date t0)) txs)
        \<and> m_surplus e = foldl signed_step (Fin 0)
              (filter (\<lambda>t. month_key h (date t) = month_key h (date t0)) txs)) txs"

text \<open>Two transactions of October, a century apart.\<close>

definition tx9 :: Transaction where
  "tx9 = mk_tx ''9'' (Fin 5) ''salary'' ''1923-10-05T08:00'' INCOME"

definition tx10 :: Transaction where
  "tx10 = mk_tx ''10'' (Fin 3) ''food'' ''2023-10-05T08:00'' EXPENSE"

text \<open>A list that enters January 2024 before December 2023.\<close>

definition months_txs :: "Transaction list" where
  "months_txs = [tx1, tx8, tx2]"

text \<open>The same with amounts that are no whole numbers.\<close>

definition months_tenths :: "Transaction list" where
  "months_tenths = tenths @ [tx8]"

text \<open>A transaction whose date cannot be read.\<close>

definition tx_undated :: Transaction where
  "tx_undated = mk_tx ''12'' (Fin 1) ''food'' [] EXPENSE"

section \<open>Evaluation of numbers\<close>

lemma floor_numeral_div [simp]:
  "\<lfloor>(numeral a :: rat) / numeral b\<rfloor> = numeral a div numeral b"
  using floor_divide_of_int_eq [of "numeral a" "numeral b", where ?'a = rat] by simp

lemma lg2_numeral [simp]:
  "lg2 0 = 0" "lg2 1 = 0"
  "lg2 (numeral (Num.Bit0 k)) = 1 + lg2 (numeral k)"
  "lg2 (numeral (Num.Bit1 k)) = 1 + lg2 (numeral k)"
proof -
  show "lg2 0 = 0" "lg2 1 = 0"
    by (simp_all add: lg2.simps)
  have "lg2 (numeral (Num.Bit0 k)) = 1 + lg2 (numeral (Num.Bit0 k) div 2)"
    by (subst lg2.simps) simp
  then show "lg2 (numeral (Num.Bit0 k)) = 1 + lg2 (numeral k)"
    by simp
  have "lg2 (numeral (Num.Bit1 k)) = 1 + lg2 (numeral (Num.Bit1 k) div 2)"
    by (subst lg2.simps) simp
  then show "lg2 (numeral (Num.Bit1 k)) = 1 + lg2 (numeral k)"
    by simp
qed

lemmas rnd_eval =
  rnd_def round_pos_def expo_def round_half_even_def scale2_def

lemmas parseFloat_eval =
  parseFloat_def strip_sign_def exponent_part_def is_space_def is_digit_def
  digits_val_def scale10_def

lemma rnd_literal_normal:
  assumes "x \<noteq> 0" and "\<not> expo \<bar>x\<bar> < - 1022"
  shows "rnd_literal x = rnd x"
  using assms by (simp add: rnd_literal_def)

lemma parseFloat_minus_5: "parseFloat ''-5'' = Fin (- 5)"
  by (simp add: parseFloat_eval rnd_literal_def rnd_eval)

lemma parseFloat_empty: "parseFloat [] = NaN"
  by (simp add: parseFloat_eval)

lemma parseFloat_abc: "parseFloat ''abc'' = NaN"
  by (simp add: parseFloat_eval)

lemma parseFloat_12_5: "parseFloat ''12.5'' = Fin (25 / 2)"
proof -
  have "parseFloat ''12.5'' = rnd (25 / 2)"
    by (simp add: parseFloat_eval rnd_literal_def expo_def)
  also have "rnd (25 / 2) = Fin (25 / 2)"
    by (simp add: rnd_eval)
  finally show ?thesis .
qed

section \<open>Claims about budgets and the savings goal\<close>

text \<open>
  C2, as stated: every input amount is stored clamped to at least 0, a negative input
  giving exactly 0. The handler only replaces \<open>NaN\<close>: the input \<open>-5\<close> is stored as
  \<open>-5\<close>, for a budget and for the savings goal alike.
\<close>

theorem C2_negative_budget_stored:
  "budget_onChange Map.empty ''food'' ''-5'' ''food'' = Some (Fin (- 5))
   \<and> \<not> js_le (Fin 0) (Fin (- 5))
   \<and> savingsGoal_onChange ''-5'' = Fin (- 5)"
  by (simp add: budget_onChange_def savingsGoal_onChange_def parseFloat_minus_5
      isNaN_def js_le_def)

text \<open>
  C2, amended: for every category id and every input, an input that is not a number is
  stored as exactly 0 and every other input is stored as parsed (a negative one
  included); the stored value is never \<open>NaN\<close>, the entries of the other categories are
  kept, and the savings goal follows the same policy.
\<close>

theorem C2_budget_nan_to_zero:
  "budget_onChange prev cid v cid =
     Some (if parseFloat v = NaN then Fin 0 else parseFloat v)
   \<and> budget_onChange prev cid v cid \<noteq> Some NaN
   \<and> (\<forall>k. k \<noteq> cid \<longrightarrow> budget_onChange prev cid v k = prev k)
   \<and> savingsGoal_onChange v = (if parseFloat v = NaN then Fin 0 else parseFloat v)
   \<and> savingsGoal_onChange v \<noteq> NaN"
  by (simp add: budget_onChange_def savingsGoal_onChange_def isNaN_def Let_def)

theorem C2_budget_nan_to_zero_witness:
  "budget_onChange [''food'' \<mapsto> Fin 7] ''coffee'' ''abc'' ''coffee'' = Some (Fin 0)
   \<and> budget_onChange [''food'' \<mapsto> Fin 7] ''coffee'' ''abc'' ''food'' = Some (Fin 7)
   \<and> savingsGoal_onChange ''abc'' = Fin 0
   \<and> budget_onChange [''food'' \<mapsto> Fin 7] ''coffee'' ''12.5'' ''coffee'' = Some (Fin (25 / 2))"
  using C2_budget_nan_to_zero [of "[''food'' \<mapsto> Fin 7]" "''coffee''" "''abc''"]
    C2_budget_nan_to_zero [of "[''food'' \<mapsto> Fin 7]" "''coffee''" "''12.5''"]
  by (simp add: parseFloat_abc parseFloat_12_5)

section \<open>Sorting returns a permutation and leaves the state alone\<close>

lemma mset_js_insert: "mset (js_insert cmp x ys) = add_mset x (mset ys)"
  by (induction ys) simp_all

lemma mset_js_sort: "mset (js_sort cmp xs) = mset xs"
  by (induction xs) (simp_all add: js_sort_def mset_js_insert)

lemma length_js_sort: "length (js_sort cmp xs) = length xs"
  using mset_js_sort [of cmp xs] by (metis size_mset)

lemma rnd_25: "rnd 25 = Fin 25"
  by (simp add: rnd_eval)

text \<open>
  C10: for every transaction list and every sort option, the sorted list is a permutation
  of the input, and sorting works on a copy: the array it answers is a new one, and the
  array of the state, like every array that was in the store, is unchanged.
\<close>

theorem C10_sort_is_permutation_of_a_copy:
  assumes "a < length st"
  shows "mset (sortedTransactions h sortOption txs) = mset txs
    \<and> snd (sortedTransactions_store h sortOption st a) \<noteq> a
    \<and> fst (sortedTransactions_store h sortOption st a)
          ! snd (sortedTransactions_store h sortOption st a)
        = sortedTransactions h sortOption (st ! a)
    \<and> take (length st) (fst (sortedTransactions_store h sortOption st a)) = st"
  using assms
  by (simp add: sortedTransactions_def sortedTransactions_store_def spread_def
      sort_in_place_def mset_js_sort nth_append)

theorem C10_sort_is_permutation_of_a_copy_witness:
  "snd (sortedTransactions_store utc_host AMOUNT_ASC sample_store 0) = 1
   \<and> fst (sortedTransactions_store utc_host AMOUNT_ASC sample_store 0) ! 0 = sample_store ! 0
   \<and> map tx_id (fst (sortedTransactions_store utc_host AMOUNT_ASC sample_store 0) ! 1)
       = [''2'', ''1'']
   \<and> mset (sortedTransactions utc_host AMOUNT_ASC (sample_store ! 0)) = mset (sample_store ! 0)"
proof -
  have len: "(0::nat) < length sample_store"
    by (simp add: sample_store_def)
  have sorted_ids:
    "map tx_id (sortedTransactions utc_host AMOUNT_ASC (sample_store ! 0)) = [''2'', ''1'']"
    by (simp add: sample_store_def sortedTransactions_def js_sort_def comparator_def
        js_sub_def js_gt_def rnd_25)
  from C10_sort_is_permutation_of_a_copy [OF len, of utc_host AMOUNT_ASC "sample_store ! 0"]
  show ?thesis
    using sorted_ids
    by (simp add: sortedTransactions_store_def spread_def sort_in_place_def sample_store_def
        nth_append)
qed

section \<open>Evaluation of dates\<close>

lemma utc_host_sel [simp]:
  "parse_time utc_host = utc_parse" "local_year utc_host = utc_year"
  "local_month utc_host = utc_month" "local_day utc_host = utc_day"
  "month_start utc_host = utc_month_start" "to_ISO utc_host = utc_to_ISO"
  by (simp_all add: utc_host_def)

lemmas utc_parse_eval =
  utc_parse_def parse_time_of_day_def parse_seconds_def parse_fraction_def
  num_of_def is_digit_def digits_val_def days_in_month_def days_from_civil_def ms_per_day_def

lemmas utc_fields_eval =
  utc_year_def utc_month_def utc_day_def civil_from_days_def civil_of_era_def
  civil_of_year_def civil_of_month_def ms_per_day_def

lemmas utc_to_ISO_eval =
  utc_to_ISO_def four_digits_def three_digits_def two_digits_def digit_char_def ms_per_day_def

lemma parse_2024_01_01_0900: "utc_parse ''2024-01-01T09:00'' = Some 1704099600000"
  by (simp add: utc_parse_eval)

lemma fields_2024_01_01_0900:
  "utc_year 1704099600000 = 2024" "utc_month 1704099600000 = 0" "utc_day 1704099600000 = 1"
  by (simp_all add: utc_fields_eval)

lemma iso_2024_01_01_0900: "utc_to_ISO 1704099600000 = ''2024-01-01T09:00:00.000Z''"
  by (simp add: utc_to_ISO_eval fields_2024_01_01_0900)

lemma parse_iso_2024_01_01_0900:
  "utc_parse ''2024-01-01T09:00:00.000Z'' = Some 1704099600000"
  by (simp add: utc_parse_eval)

section \<open>Loading and saving\<close>

lemma load_effect_nothing_stored:
  "load_effect Jt Jb Map.empty st = st"
  by (simp add: load_effect_def)

lemma load_effect_unreadable_transactions:
  assumes "Jt s = None"
  shows "transactions (load_effect Jt Jb [''transactions'' \<mapsto> s] st) = transactions st"
  using assms by (simp add: load_effect_def)

text \<open>
  Stored JSON that parses, but to something that is no array, is put into the state as it
  is and not treated as absent.
\<close>

lemma load_effect_other_value:
  assumes "Jt s = Some Other_value" and "s \<noteq> []"
  shows "transactions (load_effect Jt Jb [''transactions'' \<mapsto> s] initial_state) = Other_value"
  using assms by (simp add: load_effect_def)

text \<open>
  C4 at the stored goal \<open>abc\<close>: \<open>parseFloat\<close> answers \<open>NaN\<close> instead of throwing, so
  the \<open>catch\<close> around it never runs and the goal in memory becomes \<open>NaN\<close>, not 0.
\<close>

theorem C4_non_numeric_goal_is_loaded_as_NaN:
  "savingsGoal (load_effect Jt Jb [''savingsGoal'' \<mapsto> ''abc''] initial_state) = NaN"
  by (simp add: load_effect_def initial_state_def parseFloat_abc)

lemma js_gt_not_le: "js_gt x (Fin 0) \<Longrightarrow> \<not> js_le x (Fin 0)"
  by (cases x) (auto simp: js_gt_def js_le_def)



lemma handleSave_invalid_date:
  assumes "js_gt (parseFloat (f_amount form)) (Fin 0)"
    and "parse_time h (f_date form) = None"
  shows "handleSaveTransaction h now form prev = Inl RangeError"
proof -
  have "f_amount form \<noteq> []"
    using assms(1) by (auto simp: parseFloat_empty js_gt_def)
  then show ?thesis
    using assms js_gt_not_le [OF assms(1)] by (simp add: handleSaveTransaction_def)
qed

lemma digits_of_sample: "digits_of 1704099600123 = ''1704099600123''"
  by (simp add: digits_of.simps digit_char_def)

section \<open>Rounding\<close>

lemma lg2_bounds:
  "1 \<le> n \<Longrightarrow> 0 \<le> lg2 n \<and> 2 ^ nat (lg2 n) \<le> n \<and> n < 2 * 2 ^ nat (lg2 n)"
proof (induction n rule: lg2.induct)
  case (1 n)
  show ?case
  proof (cases "n < 2")
    case True
    with "1.prems" have "n = 1" by simp
    then show ?thesis by (simp add: lg2.simps)
  next
    case False
    then have h: "1 \<le> n div 2" by simp
    from "1.IH" [OF False h]
    have ih: "0 \<le> lg2 (n div 2)" "2 ^ nat (lg2 (n div 2)) \<le> n div 2"
      "n div 2 < 2 * 2 ^ nat (lg2 (n div 2))"
      by simp_all
    have eq: "lg2 n = 1 + lg2 (n div 2)"
      using False by (subst lg2.simps) simp
    have p: "(2::int) ^ nat (1 + lg2 (n div 2)) = 2 * 2 ^ nat (lg2 (n div 2))"
      using ih(1) by (simp add: nat_add_distrib)
    have "2 * (n div 2) \<le> n" "n < 2 * (n div 2) + 2"
      by presburger+
    with ih show ?thesis
      unfolding eq p by auto
  qed
qed

lemma scale2_powi: "scale2 x e = x * 2 powi e"
  by (simp add: scale2_def power_int_def field_simps)

lemma expo_bounds:
  assumes "0 < x"
  shows "2 powi (expo x) \<le> x \<and> x < 2 powi (expo x + 1)"
proof (cases "1 \<le> x")
  case True
  then have f: "1 \<le> \<lfloor>x\<rfloor>" by simp
  define k where "k = nat (lg2 \<lfloor>x\<rfloor>)"
  from lg2_bounds [OF f] have k: "lg2 \<lfloor>x\<rfloor> = int k" "2 ^ k \<le> \<lfloor>x\<rfloor>" "\<lfloor>x\<rfloor> < 2 * 2 ^ k"
    by (simp_all add: k_def)
  have e: "expo x = int k"
    using True k(1) by (simp add: expo_def)
  from k(2) have "(of_int (2 ^ k) :: rat) \<le> x"
    by (rule iffD1 [OF le_floor_iff])
  then have lo: "2 ^ k \<le> x"
    by simp
  from k(3) have "x < (of_int (2 * 2 ^ k) :: rat)"
    by (rule iffD1 [OF floor_less_iff])
  then have hi: "x < 2 * 2 ^ k"
    by simp
  show ?thesis
    using lo hi by (simp add: e power_int_add)
next
  case False
  define y where "y = 1 / x"
  have y: "1 < y" "0 < y" "x = 1 / y"
    using False assms by (simp_all add: y_def)
  then have f: "1 \<le> \<lfloor>y\<rfloor>" by simp
  define k where "k = nat (lg2 \<lfloor>y\<rfloor>)"
  from lg2_bounds [OF f] have k: "lg2 \<lfloor>y\<rfloor> = int k" "2 ^ k \<le> \<lfloor>y\<rfloor>" "\<lfloor>y\<rfloor> < 2 * 2 ^ k"
    by (simp_all add: k_def)
  from k(2) have "(of_int (2 ^ k) :: rat) \<le> y"
    by (rule iffD1 [OF le_floor_iff])
  then have lo: "2 ^ k \<le> y"
    by simp
  from k(3) have "y < (of_int (2 * 2 ^ k) :: rat)"
    by (rule iffD1 [OF floor_less_iff])
  then have hi: "y < 2 * 2 ^ k"
    by simp
  have "inverse y \<le> inverse (2 ^ k)"
    using lo by (intro le_imp_inverse_le) simp_all
  then have x_le: "x \<le> 1 / 2 ^ k"
    by (simp add: y_def inverse_eq_divide)
  have "inverse (2 * 2 ^ k) < inverse y"
    using hi y(2) by (intro less_imp_inverse_less) simp_all
  then have x_gt: "1 / (2 * 2 ^ k) < x"
    by (simp add: y_def inverse_eq_divide)
  have p1: "(2::rat) powi (- int k) = 1 / 2 ^ k"
    by (simp add: power_int_minus inverse_eq_divide)
  have p2: "(2::rat) powi (- int k + 1) = 2 * (1 / 2 ^ k)"
    by (simp add: power_int_diff)
  have p3: "(2::rat) powi (- int k - 1) = 1 / (2 * 2 ^ k)"
    by (simp add: power_int_diff power_int_minus inverse_eq_divide)
  show ?thesis
  proof (cases "x * 2 ^ k = 1")
    case True
    then have e: "expo x = - int k"
      using False k(1) by (simp add: expo_def y_def)
    have xe: "x = 1 / 2 ^ k"
      using True by (simp add: field_simps)
    have "x \<le> x \<and> x < 2 * x"
      using assms by simp
    then show ?thesis
      unfolding e p1 p2 using xe by simp
  next
    case neq: False
    then have e: "expo x = - int k - 1"
      using False k(1) by (simp add: expo_def y_def)
    have "x \<noteq> 1 / 2 ^ k"
      using neq by (auto simp: field_simps)
    with x_le have "x < 1 / 2 ^ k" by simp
    then show ?thesis
      unfolding e p3 using x_gt p1 by simp
  qed
qed

lemma round_half_even_bounds:
  "\<lfloor>y\<rfloor> \<le> round_half_even y \<and> round_half_even y \<le> \<lfloor>y\<rfloor> + 1"
  by (simp add: round_half_even_def Let_def)

lemma round_half_even_of_int [simp]: "round_half_even (of_int k) = k"
  by (simp add: round_half_even_def)

lemma round_pos_positive:
  assumes "0 < x" and "round_pos x = Some r"
  shows "0 < r"
proof -
  define e where "e = expo x"
  define m where "m = round_half_even (scale2 x (52 - e))"
  have r: "r = of_int m * 2 powi (e - 52)"
    using assms(2) by (auto simp: round_pos_def e_def m_def scale2_powi Let_def split: if_splits)
  have "2 powi e * 2 powi (52 - e) \<le> x * 2 powi (52 - e)"
    using expo_bounds [OF assms(1)] by (simp add: e_def)
  moreover have "(2::rat) powi e * 2 powi (52 - e) = 2 ^ 52"
    by (simp add: power_int_add [symmetric])
  ultimately have "(2::rat) ^ 52 \<le> scale2 x (52 - e)"
    by (simp add: scale2_powi)
  then have "1 \<le> scale2 x (52 - e)"
    by simp
  then have "0 < \<lfloor>scale2 x (52 - e)\<rfloor>"
    by simp
  then have "0 < m"
    using round_half_even_bounds [of "scale2 x (52 - e)"] unfolding m_def by linarith
  then show ?thesis
    by (simp add: r zero_less_power_int)
qed

lemma rnd_not_NaN [simp]: "rnd x \<noteq> NaN"
  by (simp add: rnd_def split: option.splits)

lemma rnd_pos_iff: "js_lt (Fin 0) (rnd x) \<longleftrightarrow> 0 < x"
  using round_pos_positive [of x] round_pos_positive [of "- x"]
  by (auto simp: rnd_def split: option.splits)

lemma rnd_neg_iff: "js_lt (rnd x) (Fin 0) \<longleftrightarrow> x < 0"
  using round_pos_positive [of x] round_pos_positive [of "- x"]
  by (auto simp: rnd_def split: option.splits)

lemma round_pos_of_int:
  assumes "0 < z" and "z \<le> 2 ^ 53"
  shows "round_pos (of_int z) = Some (of_int z)"
proof -
  have f: "1 \<le> z" using assms by simp
  define k where "k = nat (lg2 z)"
  from lg2_bounds [OF f] have k: "lg2 z = int k" "2 ^ k \<le> z"
    by (simp_all add: k_def)
  have e: "expo (of_int z) = int k"
    using f k(1) by (simp add: expo_def)
  have p: "(2::int) ^ k \<le> 2 ^ 53"
    using k(2) assms(2) by (rule order_trans)
  have k53: "k \<le> 53"
  proof (rule power_le_imp_le_exp)
    show "(1::int) < 2" by simp
    show "(2::int) ^ k \<le> 2 ^ 53" by (fact p)
  qed
  show ?thesis
  proof (cases "k = 53")
    case True
    then have z: "z = 2 ^ 53"
      using k(2) assms(2) by simp
    have "scale2 (of_int z) (52 - int k) = of_int (2 ^ 52)"
      by (simp add: scale2_def True z)
    then have m: "round_half_even (scale2 (of_int z) (52 - int k)) = 2 ^ 52"
      by (simp only: round_half_even_of_int)
    show ?thesis
      by (simp add: round_pos_def e m) (simp add: True z scale2_def)
  next
    case False
    with k53 have k52: "k \<le> 52" by simp
    then have "scale2 (of_int z) (52 - int k) = of_int (z * 2 ^ (52 - k))"
      by (simp add: scale2_def nat_diff_distrib')
    then have m: "round_half_even (scale2 (of_int z) (52 - int k)) = z * 2 ^ (52 - k)"
      by (simp only: round_half_even_of_int)
    have "scale2 (of_int (z * 2 ^ (52 - k))) (int k - 52) = of_int z"
      using k52 by (simp add: scale2_powi power_int_def nat_diff_distrib' field_simps)
    then show ?thesis
      using k52 by (simp add: round_pos_def e m)
  qed
qed

lemma rnd_of_int:
  assumes "\<bar>z\<bar> \<le> 2 ^ 53"
  shows "rnd (of_int z) = Fin (of_int z)"
proof -
  consider "z = 0" | "0 < z" | "z < 0" by linarith
  then show ?thesis
  proof cases
    case 1
    then show ?thesis by (simp add: rnd_def)
  next
    case 2
    with assms have "round_pos (of_int z) = Some (of_int z)"
      by (intro round_pos_of_int) simp_all
    with 2 show ?thesis by (simp add: rnd_def)
  next
    case 3
    with assms have "round_pos (of_int (- z)) = Some (of_int (- z))"
      by (intro round_pos_of_int) simp_all
    with 3 show ?thesis by (simp add: rnd_def)
  qed
qed

lemma expo_unique:
  assumes "0 < x" and "2 powi k \<le> x" and "x < 2 powi (k + 1)"
  shows "expo x = k"
proof -
  have b: "2 powi (expo x) \<le> x" "x < 2 powi (expo x + 1)"
    using expo_bounds [OF assms(1)] by simp_all
  have "\<not> expo x + 1 \<le> k"
  proof
    assume "expo x + 1 \<le> k"
    then have "(2::rat) powi (expo x + 1) \<le> 2 powi k"
      by (intro power_int_increasing) simp_all
    then show False
      using b(2) assms(2) by simp
  qed
  moreover have "\<not> k + 1 \<le> expo x"
  proof
    assume "k + 1 \<le> expo x"
    then have "(2::rat) powi (k + 1) \<le> 2 powi (expo x)"
      by (intro power_int_increasing) simp_all
    then show False
      using b(1) assms(3) by simp
  qed
  ultimately show ?thesis
    by simp
qed

lemma round_pos_idem:
  assumes "0 < x" and "round_pos x = Some r"
  shows "round_pos r = Some r"
proof -
  define e where "e = expo x"
  define m where "m = round_half_even (scale2 x (52 - e))"
  have ok: "\<not> (1024 \<le> e \<or> (e = 1023 \<and> m = 2 ^ 53))"
    and r: "r = of_int m * 2 powi (e - 52)"
    using assms(2) by (auto simp: round_pos_def e_def m_def scale2_powi Let_def split: if_splits)
  have p52: "(2::rat) powi e * 2 powi (52 - e) = 2 ^ 52"
    by (simp add: power_int_add [symmetric])
  have p53: "(2::rat) powi (e + 1) * 2 powi (52 - e) = 2 ^ 53"
    by (simp add: power_int_add [symmetric])
  have pos: "(0::rat) < 2 powi (52 - e)"
    by (simp add: zero_less_power_int)
  have "2 powi e * 2 powi (52 - e) \<le> x * 2 powi (52 - e)"
    using expo_bounds [OF assms(1)] pos by (simp add: e_def)
  then have lo: "(2::rat) ^ 52 \<le> scale2 x (52 - e)"
    by (simp add: p52 scale2_powi)
  have "x * 2 powi (52 - e) < 2 powi (e + 1) * 2 powi (52 - e)"
    using expo_bounds [OF assms(1)] pos by (simp add: e_def)
  then have hi: "scale2 x (52 - e) < 2 ^ 53"
    by (simp add: p53 scale2_powi)
  have "(of_int (2 ^ 52) :: rat) \<le> scale2 x (52 - e)"
    using lo by simp
  then have flo: "2 ^ 52 \<le> \<lfloor>scale2 x (52 - e)\<rfloor>"
    by (simp only: le_floor_iff)
  have "scale2 x (52 - e) < (of_int (2 ^ 53) :: rat)"
    using hi by simp
  then have fhi: "\<lfloor>scale2 x (52 - e)\<rfloor> < 2 ^ 53"
    by (simp only: floor_less_iff)
  have m: "2 ^ 52 \<le> m" "m \<le> 2 ^ 53"
    using round_half_even_bounds [of "scale2 x (52 - e)"] flo fhi unfolding m_def by linarith+
  have q: "(2::rat) powi (e - 52) = 2 powi e / 2 ^ 52"
    by (simp add: power_int_diff)
  have scale_pos: "(0::rat) < 2 powi (e - 52)"
    by (simp add: zero_less_power_int)
  show ?thesis
  proof (cases "m = 2 ^ 53")
    case True
    have r': "r = 2 powi (e + 1)"
      unfolding r True by (simp add: q power_int_add)
    have "r < 2 powi (e + 1 + 1)"
      unfolding r' by (intro power_int_strict_increasing) simp_all
    then have ex: "expo r = e + 1"
      using r' by (intro expo_unique) (simp_all add: zero_less_power_int)
    have "scale2 r (52 - (e + 1)) = of_int (2 ^ 52)"
      using power_int_add [of "2::rat" "e + 1" "52 - (e + 1)"] by (simp add: scale2_powi r' add.commute)
    then have m': "round_half_even (scale2 r (52 - (e + 1))) = 2 ^ 52"
      by (simp only: round_half_even_of_int)
    have again: "scale2 (of_int (2 ^ 52)) (e + 1 - 52) = r"
      using power_int_add [of "2::rat" 52 "e + 1 - 52"] by (simp add: scale2_powi r' add.commute)
    have e_le: "e + 1 < 1024"
      using ok True by simp
    show ?thesis
      unfolding round_pos_def Let_def ex m' again using e_le by simp
  next
    case False
    then have m53: "m < 2 ^ 53"
      using m(2) by simp
    have "(of_int (2 ^ 52) :: rat) \<le> of_int m" "(of_int m :: rat) < of_int (2 ^ 53)"
      using m(1) m53 by (simp_all only: of_int_le_iff of_int_less_iff)
    then have mr: "(2::rat) ^ 52 \<le> of_int m" "(of_int m :: rat) < 2 ^ 53"
      by simp_all
    have "(2::rat) ^ 52 * 2 powi (e - 52) \<le> of_int m * 2 powi (e - 52)"
      using mr(1) scale_pos by (intro mult_right_mono) simp_all
    then have rlo: "2 powi e \<le> r"
      by (simp add: r q)
    have "of_int m * 2 powi (e - 52) < (2::rat) ^ 53 * 2 powi (e - 52)"
      using mr(2) scale_pos by (intro mult_strict_right_mono) simp_all
    then have rhi: "r < 2 powi (e + 1)"
      by (simp add: r q power_int_add)
    have rpos: "0 < r"
      using rlo by (rule less_le_trans [rotated]) (simp add: zero_less_power_int)
    have ex: "expo r = e"
      using rpos rlo rhi by (rule expo_unique)
    have "2 powi (e - 52) * (2::rat) powi (52 - e) = 1"
      using power_int_add [of "2::rat" "e - 52" "52 - e"] by simp
    then have "of_int m * (2 powi (e - 52) * (2::rat) powi (52 - e)) = of_int m"
      by simp
    then have "scale2 r (52 - e) = of_int m"
      by (simp add: scale2_powi r mult.assoc)
    then have m': "round_half_even (scale2 r (52 - e)) = m"
      by (simp only: round_half_even_of_int)
    show ?thesis
      unfolding round_pos_def Let_def ex m' using ok by (simp add: scale2_powi r)
  qed
qed

lemma rnd_idem:
  assumes "rnd x = Fin r"
  shows "rnd r = Fin r"
proof -
  consider "x = 0" | "0 < x" | "x < 0" by linarith
  then show ?thesis
  proof cases
    case 1
    then show ?thesis using assms by (simp add: rnd_def)
  next
    case 2
    then have rp: "round_pos x = Some r"
      using assms by (simp add: rnd_def split: option.splits)
    have "0 < r"
      using 2 rp by (rule round_pos_positive)
    then show ?thesis
      using round_pos_idem [OF 2 rp] by (simp add: rnd_def)
  next
    case 3
    then have rp: "round_pos (- x) = Some (- r)"
      using assms by (auto simp: rnd_def split: option.splits)
    have p: "0 < - x" using 3 by simp
    have "0 < - r"
      using p rp by (rule round_pos_positive)
    then show ?thesis
      using round_pos_idem [OF p rp] by (simp add: rnd_def)
  qed
qed

lemma js_add_of_int:
  assumes "\<bar>a + b\<bar> \<le> 2 ^ 53"
  shows "js_add (Fin (of_int a)) (Fin (of_int b)) = Fin (of_int (a + b))"
  using rnd_of_int [OF assms] by simp

lemma js_sub_of_int:
  assumes "\<bar>a - b\<bar> \<le> 2 ^ 53"
  shows "js_sub (Fin (of_int a)) (Fin (of_int b)) = Fin (of_int (a - b))"
  using rnd_of_int [OF assms] by (simp add: js_sub_def)

lemma js_sub_positive_iff:
  "js_gt (js_sub (Fin a) (Fin b)) (Fin 0) \<longleftrightarrow> b < a"
  by (simp add: js_sub_def js_gt_def rnd_pos_iff)

section \<open>Saving a new transaction\<close>





text \<open>
  The guard is \<open>!amount || parseFloat(amount) <= 0\<close>, and \<open>NaN <= 0\<close> is false: a string
  that is not empty and from which \<open>parseFloat\<close> reads no number would pass it, and a
  transaction with the amount \<open>NaN\<close> would be put at the head of the list. The form
  holds no such string.
\<close>

lemma handleSave_saves_NaN:
  "handleSaveTransaction utc_host 1704099600123 (sample_form ''abc'') []
   = Inr [\<lparr>tx_id = ''1704099600123'', amount = NaN, categoryId = ''food'',
            date = ''2024-01-01T09:00:00.000Z'', tx_note = ''lunch'', tx_type = EXPENSE\<rparr>]"
  by (simp add: handleSaveTransaction_def sample_form_def parseFloat_abc js_le_def
      parse_2024_01_01_0900 iso_2024_01_01_0900 new_transaction_def digits_of_sample)






lemma sample_form_sel [simp]:
  "f_amount (sample_form a) = a" "f_note (sample_form a) = ''lunch''"
  "selectedCategory (sample_form a) = ''food''" "f_type (sample_form a) = EXPENSE"
  "f_date (sample_form a) = ''2024-01-01T09:00''" "editingTransaction (sample_form a) = None"
  by (simp_all add: sample_form_def)


section \<open>Sorting with a consistent comparator\<close>

lemma set_js_insert: "set (js_insert cmp x ys) = insert x (set ys)"
  by (induction ys) auto

lemma set_js_sort: "set (js_sort cmp xs) = set xs"
  by (induction xs) (simp_all add: js_sort_def set_js_insert)

lemma js_sort_Cons: "js_sort cmp (x # xs) = js_insert cmp x (js_sort cmp xs)"
  by (simp add: js_sort_def)

lemma sorted_wrt_js_insert:
  assumes cmp: "\<And>y. y \<in> set ys \<Longrightarrow> js_gt (cmp x y) (Fin 0) \<longleftrightarrow> \<not> le x y"
    and trans: "\<And>a b c. le a b \<Longrightarrow> le b c \<Longrightarrow> le a c"
    and total: "\<And>a b. le a b \<or> le b a"
    and sorted: "sorted_wrt le ys"
  shows "sorted_wrt le (js_insert cmp x ys)"
  using cmp sorted
proof (induction ys)
  case Nil
  then show ?case by simp
next
  case (Cons y ys)
  show ?case
  proof (cases "js_gt (cmp x y) (Fin 0)")
    case True
    then have "\<not> le x y"
      using Cons.prems(1) [of y] by simp
    then have yx: "le y x"
      using total [of x y] by simp
    have "sorted_wrt le (js_insert cmp x ys)"
      using Cons.IH Cons.prems by simp
    then show ?thesis
      using True yx Cons.prems(2) by (simp add: set_js_insert)
  next
    case False
    then have xy: "le x y"
      using Cons.prems(1) [of y] by simp
    have "le x z" if "z \<in> set ys" for z
      using trans [OF xy, of z] Cons.prems(2) that by simp
    then have "\<forall>z \<in> set ys. le x z"
      by simp
    then show ?thesis
      using False xy Cons.prems(2) by simp
  qed
qed

lemma sorted_wrt_js_sort:
  assumes cmp: "\<And>x y. x \<in> set xs \<Longrightarrow> y \<in> set xs \<Longrightarrow> js_gt (cmp x y) (Fin 0) \<longleftrightarrow> \<not> le x y"
    and trans: "\<And>a b c. le a b \<Longrightarrow> le b c \<Longrightarrow> le a c"
    and total: "\<And>a b. le a b \<or> le b a"
  shows "sorted_wrt le (js_sort cmp xs)"
  using cmp
proof (induction xs)
  case Nil
  then show ?case by (simp add: js_sort_def)
next
  case (Cons x xs)
  have s: "sorted_wrt le (js_sort cmp xs)"
    using Cons by simp
  have c: "js_gt (cmp x y) (Fin 0) \<longleftrightarrow> \<not> le x y" if "y \<in> set (js_sort cmp xs)" for y
    using Cons.prems [of x y] that by (simp add: set_js_sort)
  show ?case
    unfolding js_sort_Cons
  proof (rule sorted_wrt_js_insert [where le = le])
    show "js_gt (cmp x y) (Fin 0) \<longleftrightarrow> \<not> le x y" if "y \<in> set (js_sort cmp xs)" for y
      using c that .
    show "le a c" if "le a b" "le b c" for a b c
      using trans that .
    show "le a b \<or> le b a" for a b
      by (rule total)
    show "sorted_wrt le (js_sort cmp xs)"
      by (fact s)
  qed
qed

section \<open>Sorting by type\<close>

lemma getTime_valid:
  assumes "valid_dates h txs" and "t \<in> set txs"
  obtains k where "getTime h (date t) = Fin (of_int k)"
  using assms by (auto simp: valid_dates_def list_all_iff getTime_def)

text \<open>The order that both type sorts realise, on the time values.\<close>

lemma js_le_Fin [simp]: "js_le (Fin a) (Fin b) \<longleftrightarrow> a \<le> b"
  by (auto simp: js_le_def)

lemma js_gt_Fin [simp]: "js_gt (Fin a) (Fin b) \<longleftrightarrow> b < a"
  by (simp add: js_gt_def)

lemma sorted_by_type:
  assumes valid: "valid_dates h txs"
    and cmp: "\<And>a b. comparator h opt a b =
       (if tx_type a = tx_type b then js_sub (getTime h (date b)) (getTime h (date a))
        else if tx_type a = first then Fin (- 1) else Fin 1)"
  shows "sorted_wrt (type_then_date_desc h first) (sortedTransactions h opt txs)"
proof -
  define tm where "tm t = (case parse_time h (date t) of Some k \<Rightarrow> k | None \<Rightarrow> 0)"
    for t :: Transaction
  define le where "le a b \<longleftrightarrow>
    (tx_type a = tx_type b \<and> tm b \<le> tm a) \<or> (tx_type a \<noteq> tx_type b \<and> tx_type a = first)"
    for a b :: Transaction
  have gt: "getTime h (date t) = Fin (of_int (tm t))" if "t \<in> set txs" for t
    using valid that by (auto simp: valid_dates_def list_all_iff getTime_def tm_def)
  have two: "tx_type a = tx_type c" if "tx_type a \<noteq> tx_type b" "tx_type b \<noteq> tx_type c"
    for a b c :: Transaction
    using that by (cases "tx_type a"; cases "tx_type b"; cases "tx_type c") simp_all
  have "sorted_wrt le (js_sort (comparator h opt) txs)"
  proof (rule sorted_wrt_js_sort)
    fix x y assume "x \<in> set txs" "y \<in> set txs"
    then show "js_gt (comparator h opt x y) (Fin 0) \<longleftrightarrow> \<not> le x y"
      by (auto simp: cmp gt js_sub_positive_iff le_def)
  next
    fix a b c assume "le a b" "le b c"
    then show "le a c"
      unfolding le_def using two [of a b c] by (cases "tx_type a = tx_type b") auto
  next
    fix a b show "le a b \<or> le b a"
      unfolding le_def by (cases "tx_type a"; cases "tx_type b"; cases first) auto
  qed
  moreover have "type_then_date_desc h first a b"
    if "le a b" "a \<in> set txs" "b \<in> set txs" for a b
    using that by (auto simp: type_then_date_desc_def le_def gt)
  ultimately show ?thesis
    unfolding sortedTransactions_def
    by (rule sorted_wrt_mono_rel [rotated]) (simp_all add: set_js_sort)
qed

text \<open>
  C7: for every list of transactions with dates the host can read, sorting with
  \<open>TYPE_EXPENSE\<close> puts every expense before every income and, within each type, the
  later date first; \<open>TYPE_INCOME\<close> does the same with the incomes first.
\<close>

theorem C7_type_sorts:
  assumes "valid_dates h txs"
  shows "sorted_wrt (type_then_date_desc h EXPENSE) (sortedTransactions h TYPE_EXPENSE txs)
       \<and> sorted_wrt (type_then_date_desc h INCOME) (sortedTransactions h TYPE_INCOME txs)"
  using sorted_by_type [OF assms, of TYPE_EXPENSE EXPENSE]
    sorted_by_type [OF assms, of TYPE_INCOME INCOME]
  by (simp add: comparator_def)

lemma parse_samples:
  "utc_parse ''2024-01-01T18:00'' = Some 1704132000000"
  "utc_parse ''2024-01-02T08:00'' = Some 1704182400000"
  "utc_parse ''2024-01-02T07:30'' = Some 1704180600000"
  by (simp_all add: utc_parse_eval)

lemma getTime_samples:
  "getTime utc_host ''2024-01-01T09:00'' = Fin 1704099600000"
  "getTime utc_host ''2024-01-01T18:00'' = Fin 1704132000000"
  "getTime utc_host ''2024-01-02T08:00'' = Fin 1704182400000"
  "getTime utc_host ''2024-01-02T07:30'' = Fin 1704180600000"
  by (simp_all add: getTime_def parse_2024_01_01_0900 parse_samples)

lemma sample_fields [simp]:
  "tx_id tx1 = ''1''" "tx_id tx2 = ''2''" "tx_id tx3 = ''3''" "tx_id tx4 = ''4''"
  "amount tx1 = Fin 40" "amount tx2 = Fin 2500" "amount tx3 = Fin 15" "amount tx4 = Fin 300"
  "categoryId tx1 = ''food''" "categoryId tx2 = ''salary''"
  "categoryId tx3 = ''coffee''" "categoryId tx4 = ''investment''"
  "date tx1 = ''2024-01-01T09:00''" "date tx2 = ''2024-01-01T18:00''"
  "date tx3 = ''2024-01-02T08:00''" "date tx4 = ''2024-01-02T07:30''"
  "tx_type tx1 = EXPENSE" "tx_type tx2 = INCOME" "tx_type tx3 = EXPENSE" "tx_type tx4 = INCOME"
  by (simp_all add: tx1_def tx2_def tx3_def tx4_def mk_tx_def)

lemma valid_dates_sample: "valid_dates utc_host sample_txs"
  by (simp add: valid_dates_def sample_txs_def parse_2024_01_01_0900 parse_samples)

theorem C7_type_sorts_witness:
  "valid_dates utc_host sample_txs
   \<and> sortedTransactions utc_host TYPE_EXPENSE sample_txs = [tx3, tx1, tx4, tx2]
   \<and> sortedTransactions utc_host TYPE_INCOME sample_txs = [tx4, tx2, tx3, tx1]
   \<and> sorted_wrt (type_then_date_desc utc_host EXPENSE) [tx3, tx1, tx4, tx2]
   \<and> sorted_wrt (type_then_date_desc utc_host INCOME) [tx4, tx2, tx3, tx1]"
proof -
  have e: "sortedTransactions utc_host TYPE_EXPENSE sample_txs = [tx3, tx1, tx4, tx2]"
    by (simp add: sortedTransactions_def js_sort_def sample_txs_def comparator_def
        getTime_samples js_sub_positive_iff)
  have i: "sortedTransactions utc_host TYPE_INCOME sample_txs = [tx4, tx2, tx3, tx1]"
    by (simp add: sortedTransactions_def js_sort_def sample_txs_def comparator_def
        getTime_samples js_sub_positive_iff)
  show ?thesis
    using C7_type_sorts [OF valid_dates_sample] valid_dates_sample unfolding e i by simp
qed

section \<open>Grouping by day\<close>

lemma same_day_key:
  assumes "parse_time h a \<noteq> None"
  shows "same_day h a b \<longleftrightarrow> day_key h a = day_key h b"
  using assms
  by (cases "parse_time h b")
    (auto simp: same_day_def day_key_def strict_eq_def getFullYear_def getMonth_def getDate_def)

lemma first_occ_snoc:
  "first_occ (ks @ [k]) = (if k \<in> set (first_occ ks) then first_occ ks else first_occ ks @ [k])"
  by (simp add: first_occ_def)

lemma set_first_occ: "set (first_occ ks) = set ks"
  by (induction ks rule: rev_induct) (auto simp: first_occ_snoc, simp add: first_occ_def)

lemma distinct_first_occ: "distinct (first_occ ks)"
  by (induction ks rule: rev_induct) (simp_all add: first_occ_snoc, simp add: first_occ_def)

lemma group_push_date [simp]: "g_date (group_push t g) = g_date g"
  by (simp add: group_push_def)

lemma group_push_transactions [simp]:
  "g_transactions (group_push t g) = g_transactions g @ [t]"
  by (simp add: group_push_def)

lemma sum_amounts_snoc: "sum_amounts (ts @ [t]) = js_add (sum_amounts ts) (amount t)"
  by (simp add: sum_amounts_def)

text \<open>
  With one group for each day, adding to the first group of the day is adding to every
  group of the day.
\<close>

lemma group_step_distinct:
  assumes "distinct (map (\<lambda>g. day_key h (g_date g)) groups)"
    and "\<And>g. g \<in> set groups \<Longrightarrow> parse_time h (g_date g) \<noteq> None"
  shows "group_step h t groups =
    (if day_key h (date t) \<in> set (map (\<lambda>g. day_key h (g_date g)) groups)
     then map (\<lambda>g. if day_key h (g_date g) = day_key h (date t) then group_push t g else g) groups
     else groups @ [group_push t \<lparr>g_date = date t, g_transactions = [], g_totalExpense = Fin 0,
                                  g_totalIncome = Fin 0\<rparr>])"
  using assms
proof (induction groups)
  case Nil
  then show ?case by simp
next
  case (Cons g groups)
  have sd: "same_day h (g_date g) (date t) \<longleftrightarrow> day_key h (g_date g) = day_key h (date t)"
    using Cons.prems(2) [of g] by (simp add: same_day_key)
  show ?case
  proof (cases "day_key h (g_date g) = day_key h (date t)")
    case True
    then have "\<forall>g' \<in> set groups. day_key h (g_date g') \<noteq> day_key h (date t)"
      using Cons.prems(1) by (auto simp: image_iff)
    then have "map (\<lambda>g. if day_key h (g_date g) = day_key h (date t) then group_push t g else g)
                 groups = groups"
      by (induction groups) simp_all
    then show ?thesis
      using True sd by simp
  next
    case False
    then show ?thesis
      using sd Cons by auto
  qed
qed

lemma grouped_snoc:
  "groupedTransactions h (txs @ [t]) = group_step h t (groupedTransactions h txs)"
  by (simp add: groupedTransactions_def)

lemma grouped_invariant:
  assumes "valid_dates h txs"
  shows "map (\<lambda>g. day_key h (g_date g)) (groupedTransactions h txs)
           = first_occ (map (\<lambda>t. day_key h (date t)) txs)
       \<and> (\<forall>g \<in> set (groupedTransactions h txs).
             parse_time h (g_date g) \<noteq> None \<and> group_of_day h txs g)"
  using assms
proof (induction txs rule: rev_induct)
  case Nil
  then show ?case
    by (simp add: groupedTransactions_def first_occ_def)
next
  case (snoc t txs)
  define G where "G = groupedTransactions h txs"
  define K where "K = (\<lambda>g :: DailyGroup. day_key h (g_date g))"
  have valid: "valid_dates h txs" and vt: "parse_time h (date t) \<noteq> None"
    using snoc.prems by (simp_all add: valid_dates_def)
  from snoc.IH [OF valid]
  have keys: "map K G = first_occ (map (\<lambda>t. day_key h (date t)) txs)"
    and inv: "\<And>g. g \<in> set G \<Longrightarrow> parse_time h (g_date g) \<noteq> None \<and> group_of_day h txs g"
    by (simp_all add: G_def K_def)
  have dist: "distinct (map K G)"
    by (simp add: keys distinct_first_occ)
  have step: "groupedTransactions h (txs @ [t]) =
    (if day_key h (date t) \<in> set (map K G)
     then map (\<lambda>g. if K g = day_key h (date t) then group_push t g else g) G
     else G @ [group_push t \<lparr>g_date = date t, g_transactions = [], g_totalExpense = Fin 0,
                             g_totalIncome = Fin 0\<rparr>])"
    unfolding grouped_snoc G_def [symmetric] K_def
    using dist inv by (intro group_step_distinct) (simp_all add: K_def)
  have push: "group_of_day h (txs @ [t]) (group_push t g)"
    if "group_of_day h txs g" "parse_time h (g_date g) \<noteq> None" "K g = day_key h (date t)" for g
  proof -
    have sd: "same_day h (g_date g) (date t)"
      using that(2,3) by (simp add: same_day_key K_def)
    from that(1)
    have m: "g_transactions g = filter (\<lambda>u. same_day h (g_date g) (date u)) txs"
      and ne: "g_transactions g \<noteq> []"
      and d: "date (hd (g_transactions g)) = g_date g"
      and e: "g_totalExpense g = sum_amounts (filter (\<lambda>t. tx_type t = EXPENSE) (g_transactions g))"
      and i: "g_totalIncome g = sum_amounts (filter (\<lambda>t. tx_type t = INCOME) (g_transactions g))"
      unfolding group_of_day_def by blast+
    have m': "g_transactions (group_push t g)
        = filter (\<lambda>u. same_day h (g_date (group_push t g)) (date u)) (txs @ [t])"
      using sd by (simp add: m [symmetric])
    have n': "g_transactions (group_push t g) \<noteq> []"
      by simp
    have d': "date (hd (g_transactions (group_push t g))) = g_date (group_push t g)"
      using ne d by (simp add: hd_append2)
    have e': "g_totalExpense (group_push t g)
        = sum_amounts (filter (\<lambda>t. tx_type t = EXPENSE) (g_transactions (group_push t g)))"
      by (cases "tx_type t") (simp_all add: group_push_def sum_amounts_snoc e)
    have i': "g_totalIncome (group_push t g)
        = sum_amounts (filter (\<lambda>t. tx_type t = INCOME) (g_transactions (group_push t g)))"
      by (cases "tx_type t") (simp_all add: group_push_def sum_amounts_snoc i)
    show ?thesis
      unfolding group_of_day_def using m' n' d' e' i' by blast
  qed
  have keep: "group_of_day h (txs @ [t]) g"
    if "group_of_day h txs g" "parse_time h (g_date g) \<noteq> None" "K g \<noteq> day_key h (date t)" for g
  proof -
    have sd: "\<not> same_day h (g_date g) (date t)"
      using that(2,3) by (simp add: same_day_key K_def)
    from that(1)
    have m: "g_transactions g = filter (\<lambda>u. same_day h (g_date g) (date u)) txs"
      and r: "g_transactions g \<noteq> []"
        "date (hd (g_transactions g)) = g_date g"
        "g_totalExpense g = sum_amounts (filter (\<lambda>t. tx_type t = EXPENSE) (g_transactions g))"
        "g_totalIncome g = sum_amounts (filter (\<lambda>t. tx_type t = INCOME) (g_transactions g))"
      unfolding group_of_day_def by blast+
    have m': "g_transactions g = filter (\<lambda>u. same_day h (g_date g) (date u)) (txs @ [t])"
      using sd by (simp add: m [symmetric])
    show ?thesis
      unfolding group_of_day_def using m' r by blast
  qed
  show ?case
  proof (cases "day_key h (date t) \<in> set (map K G)")
    case True
    have "map K (map (\<lambda>g. if K g = day_key h (date t) then group_push t g else g) G) = map K G"
      by (simp add: K_def comp_def cong: if_cong)
    moreover have "first_occ (map (\<lambda>t. day_key h (date t)) (txs @ [t])) = map K G"
      using True by (simp add: first_occ_snoc keys [symmetric])
    ultimately show ?thesis
      unfolding step using True inv push keep by (auto simp: K_def)
  next
    case False
    have none: "filter (\<lambda>u. same_day h (date t) (date u)) txs = []"
    proof -
      have "\<not> same_day h (date t) (date u)" if "u \<in> set txs" for u
      proof -
        have "day_key h (date u) \<in> set (first_occ (map (\<lambda>t. day_key h (date t)) txs))"
          using that by (simp add: set_first_occ)
        then have "day_key h (date u) \<in> set (map K G)"
          by (simp add: keys)
        then have "day_key h (date u) \<noteq> day_key h (date t)"
          using False by metis
        then show ?thesis
          using vt by (simp add: same_day_key)
      qed
      then show ?thesis
        by (simp add: filter_empty_conv)
    qed
    have new: "group_of_day h (txs @ [t])
        (group_push t \<lparr>g_date = date t, g_transactions = [], g_totalExpense = Fin 0,
                        g_totalIncome = Fin 0\<rparr>)"
      using vt none
      by (cases "tx_type t")
        (simp_all add: group_of_day_def group_push_def same_day_key sum_amounts_def)
    have old: "group_of_day h (txs @ [t]) g" if "g \<in> set G" for g
    proof -
      have "K g \<in> set (map K G)" using that by simp
      then have "K g \<noteq> day_key h (date t)" using False by auto
      then show ?thesis using keep inv that by simp
    qed
    have "first_occ (map (\<lambda>t. day_key h (date t)) (txs @ [t])) = map K G @ [day_key h (date t)]"
      using False by (simp add: first_occ_snoc keys [symmetric])
    then show ?thesis
      unfolding step using False inv new old vt by (auto simp: K_def)
  qed
qed

lemma fields_samples:
  "utc_year 1704132000000 = 2024" "utc_month 1704132000000 = 0" "utc_day 1704132000000 = 1"
  "utc_year 1704182400000 = 2024" "utc_month 1704182400000 = 0" "utc_day 1704182400000 = 2"
  "utc_year 1704180600000 = 2024" "utc_month 1704180600000 = 0" "utc_day 1704180600000 = 2"
  by (simp_all add: utc_fields_eval)

lemma day_key_samples:
  "day_key utc_host ''2024-01-01T09:00'' = (Some 2024, Some 0, Some 1)"
  "day_key utc_host ''2024-01-01T18:00'' = (Some 2024, Some 0, Some 1)"
  "day_key utc_host ''2024-01-02T08:00'' = (Some 2024, Some 0, Some 2)"
  "day_key utc_host ''2024-01-02T07:30'' = (Some 2024, Some 0, Some 2)"
  by (simp_all add: day_key_def getFullYear_def getMonth_def getDate_def
      parse_2024_01_01_0900 parse_samples fields_2024_01_01_0900 fields_samples)

lemma same_day_samples:
  "same_day utc_host ''2024-01-02T08:00'' ''2024-01-01T18:00'' = False"
  "same_day utc_host ''2024-01-02T08:00'' ''2024-01-01T09:00'' = False"
  "same_day utc_host ''2024-01-01T18:00'' ''2024-01-01T09:00'' = True"
  "same_day utc_host ''2024-01-01T09:00'' ''2024-01-01T18:00'' = True"
  "same_day utc_host ''2024-01-01T09:00'' ''2024-01-02T08:00'' = False"
  "same_day utc_host ''2024-01-01T09:00'' ''2024-01-02T07:30'' = False"
  by (simp_all add: same_day_key parse_2024_01_01_0900 parse_samples day_key_samples)

lemma rnd_small:
  "rnd 15 = Fin 15" "rnd 40 = Fin 40" "rnd 2500 = Fin 2500" "rnd 300 = Fin 300"
  "rnd 55 = Fin 55" "rnd 2800 = Fin 2800"
  by (simp_all add: rnd_eval)

lemma sorted_desc_sample:
  "sortedTransactions utc_host DATE_DESC [tx1, tx2, tx3] = [tx3, tx2, tx1]"
  by (simp add: sortedTransactions_def js_sort_def comparator_def getTime_samples
      js_sub_positive_iff)

lemma grouped_sample:
  "groupedTransactions utc_host [tx3, tx2, tx1] =
     [\<lparr>g_date = ''2024-01-02T08:00'', g_transactions = [tx3],
        g_totalExpense = Fin 15, g_totalIncome = Fin 0\<rparr>,
      \<lparr>g_date = ''2024-01-01T18:00'', g_transactions = [tx2, tx1],
        g_totalExpense = Fin 40, g_totalIncome = Fin 2500\<rparr>]"
  by (simp add: groupedTransactions_def group_push_def same_day_samples rnd_small)

text \<open>
  C8: for every sequence of transactions with dates the host can read (sorted by date or
  not), there is one group for each local calendar day, the groups stand in the order in
  which their days first occur in the sequence, each group holds the transactions of its
  day in the order of the sequence, and its two totals are the sums of its members'
  amounts by type. The three transactions of 2024-01-01 09:00, 2024-01-01 18:00 and
  2024-01-02 08:00, sorted with \<open>DATE_DESC\<close>, give two groups: 2 January with one
  transaction, then 1 January with the other two.
\<close>

theorem C8_groups_by_day:
  assumes "valid_dates h txs"
  shows "map (\<lambda>g. day_key h (g_date g)) (groupedTransactions h txs)
           = first_occ (map (\<lambda>t. day_key h (date t)) txs)
       \<and> list_all (group_of_day h txs) (groupedTransactions h txs)
       \<and> groupedTransactions utc_host (sortedTransactions utc_host DATE_DESC [tx1, tx2, tx3]) =
           [\<lparr>g_date = ''2024-01-02T08:00'', g_transactions = [tx3],
              g_totalExpense = Fin 15, g_totalIncome = Fin 0\<rparr>,
            \<lparr>g_date = ''2024-01-01T18:00'', g_transactions = [tx2, tx1],
              g_totalExpense = Fin 40, g_totalIncome = Fin 2500\<rparr>]"
  using grouped_invariant [OF assms]
  by (simp add: list_all_iff sorted_desc_sample grouped_sample)

lemma valid_dates_three: "valid_dates utc_host [tx3, tx2, tx1]"
  by (simp add: valid_dates_def parse_2024_01_01_0900 parse_samples)

theorem C8_groups_by_day_witness:
  "valid_dates utc_host [tx3, tx2, tx1]
   \<and> map (\<lambda>g. day_key utc_host (g_date g)) (groupedTransactions utc_host [tx3, tx2, tx1])
       = [(Some 2024, Some 0, Some 2), (Some 2024, Some 0, Some 1)]
   \<and> list_all (group_of_day utc_host [tx3, tx2, tx1]) (groupedTransactions utc_host [tx3, tx2, tx1])
   \<and> map g_transactions (groupedTransactions utc_host [tx3, tx2, tx1]) = [[tx3], [tx2, tx1]]"
proof -
  have "first_occ (map (\<lambda>t. day_key utc_host (date t)) [tx3, tx2, tx1])
        = [(Some 2024, Some 0, Some 2), (Some 2024, Some 0, Some 1)]"
    by (simp add: first_occ_def day_key_samples)
  then show ?thesis
    using C8_groups_by_day [OF valid_dates_three] valid_dates_three
    by (simp add: grouped_sample)
qed

section \<open>Totals\<close>

lemma parseFloat_tenths:
  "parseFloat ''0.1'' = Fin (3602879701896397 / 36028797018963968)"
  "parseFloat ''0.2'' = Fin (3602879701896397 / 18014398509481984)"
  "parseFloat ''0.3'' = Fin (5404319552844595 / 18014398509481984)"
  by (simp_all add: parseFloat_eval rnd_literal_def rnd_eval)

lemma tenths_sums:
  "js_add (Fin 0) (Fin (3602879701896397 / 36028797018963968))
     = Fin (3602879701896397 / 36028797018963968)"
  "js_add (Fin 0) (Fin (5404319552844595 / 18014398509481984))
     = Fin (5404319552844595 / 18014398509481984)"
  "js_add (Fin (3602879701896397 / 36028797018963968)) (Fin (3602879701896397 / 18014398509481984))
     = Fin (1351079888211149 / 4503599627370496)"
  "js_sub (Fin (3602879701896397 / 36028797018963968)) (Fin (5404319552844595 / 18014398509481984))
     = Fin (- (7205759403792793 / 36028797018963968))"
  "js_add (Fin (- (7205759403792793 / 36028797018963968))) (Fin (3602879701896397 / 18014398509481984))
     = Fin (1 / 36028797018963968)"
  "js_sub (Fin (1351079888211149 / 4503599627370496)) (Fin (5404319552844595 / 18014398509481984))
     = Fin (1 / 18014398509481984)"
  by (simp_all add: js_sub_def rnd_eval)

lemma totals_tenths:
  "totalIncome tenths = Fin (1351079888211149 / 4503599627370496)"
  "totalExpense tenths = Fin (5404319552844595 / 18014398509481984)"
  "totalBalance tenths = Fin (1 / 36028797018963968)"
  by (simp_all add: totalIncome_def totalExpense_def totalBalance_def signed_step_def tenths_def
      mk_tx_def parseFloat_tenths tenths_sums del: js_add.simps)

lemma whole_amount:
  assumes "whole (amount t)"
  shows "0 \<le> amount_int t" and "amount t = Fin (of_int (amount_int t))"
    and "val (amount t) = of_int (amount_int t)"
  using assms by (cases "amount t"; simp add: whole_def val_def amount_int_def)+

lemma amount_int_sum_nonneg:
  assumes "list_all (\<lambda>t. whole (amount t)) txs"
  shows "0 \<le> sum_list (map amount_int txs)"
  using assms by (induction txs) (simp_all add: whole_amount(1))

lemma val_sum:
  assumes "list_all (\<lambda>t. whole (amount t)) txs"
  shows "sum_list (map (\<lambda>t. val (amount t)) txs) = of_int (sum_list (map amount_int txs))"
  using assms by (induction txs) (simp_all add: whole_amount(3))

lemma add_fold_exact:
  assumes "list_all (\<lambda>t. whole (amount t)) txs"
    and "0 \<le> a" and "a + sum_list (map amount_int txs) \<le> 2 ^ 53"
  shows "foldl (\<lambda>acc t. js_add acc (amount t)) (Fin (of_int a)) txs
         = Fin (of_int (a + sum_list (map amount_int txs)))"
  using assms
proof (induction txs arbitrary: a)
  case Nil
  then show ?case by simp
next
  case (Cons t txs)
  have w: "0 \<le> amount_int t" "amount t = Fin (of_int (amount_int t))"
    using Cons.prems(1) whole_amount [of t] by simp_all
  have rest: "0 \<le> sum_list (map amount_int txs)"
    using Cons.prems(1) by (simp add: amount_int_sum_nonneg)
  have "\<bar>a + amount_int t\<bar> \<le> 2 ^ 53"
    using Cons.prems(2,3) w(1) rest by simp
  then have step: "js_add (Fin (of_int a)) (amount t) = Fin (of_int (a + amount_int t))"
    unfolding w(2) by (rule js_add_of_int)
  have "foldl (\<lambda>acc t. js_add acc (amount t)) (Fin (of_int (a + amount_int t))) txs
        = Fin (of_int (a + amount_int t + sum_list (map amount_int txs)))"
    using Cons.prems w(1) by (intro Cons.IH) (simp_all add: add.assoc)
  then show ?case
    by (simp add: step add.assoc del: js_add.simps)
qed

lemma signed_fold_exact:
  assumes "list_all (\<lambda>t. whole (amount t)) txs"
    and "\<bar>a\<bar> + sum_list (map amount_int txs) \<le> 2 ^ 53"
  shows "foldl signed_step (Fin (of_int a)) txs
         = Fin (of_int (a + sum_list (map amount_int (filter (\<lambda>t. tx_type t = INCOME) txs))
                          - sum_list (map amount_int (filter (\<lambda>t. tx_type t = EXPENSE) txs))))"
  using assms
proof (induction txs arbitrary: a)
  case Nil
  then show ?case by simp
next
  case (Cons t txs)
  have w: "0 \<le> amount_int t" "amount t = Fin (of_int (amount_int t))"
    using Cons.prems(1) whole_amount [of t] by simp_all
  have rest: "0 \<le> sum_list (map amount_int txs)"
    using Cons.prems(1) by (simp add: amount_int_sum_nonneg)
  define a' where "a' = (if tx_type t = INCOME then a + amount_int t else a - amount_int t)"
  have bound: "\<bar>a'\<bar> \<le> 2 ^ 53" "\<bar>a'\<bar> + sum_list (map amount_int txs) \<le> 2 ^ 53"
    using Cons.prems(2) w(1) rest by (auto simp: a'_def)
  have step: "signed_step (Fin (of_int a)) t = Fin (of_int a')"
  proof (cases "tx_type t = INCOME")
    case True
    then show ?thesis
      using bound(1) js_add_of_int [of a "amount_int t"]
      by (simp add: signed_step_def w(2) a'_def del: js_add.simps)
  next
    case False
    then show ?thesis
      using bound(1) js_sub_of_int [of a "amount_int t"]
      by (simp add: signed_step_def w(2) a'_def del: js_add.simps)
  qed
  have "foldl signed_step (Fin (of_int a')) txs
        = Fin (of_int (a' + sum_list (map amount_int (filter (\<lambda>t. tx_type t = INCOME) txs))
                          - sum_list (map amount_int (filter (\<lambda>t. tx_type t = EXPENSE) txs))))"
    using Cons.prems(1) bound(2) by (intro Cons.IH) simp_all
  then show ?case
    by (cases "tx_type t") (simp_all add: step a'_def)
qed

lemma amount_int_split:
  "sum_list (map amount_int (filter (\<lambda>t. tx_type t = INCOME) txs))
   + sum_list (map amount_int (filter (\<lambda>t. tx_type t = EXPENSE) txs))
   = sum_list (map amount_int txs)"
proof (induction txs)
  case Nil
  then show ?case by simp
next
  case (Cons t txs)
  then show ?case by (cases "tx_type t") simp_all
qed

lemma list_all_filter: "list_all P xs \<Longrightarrow> list_all P (filter Q xs)"
  by (simp add: list_all_iff)

lemma totals_at:
  "totalBalance (xs @ u # ys)
     = foldl signed_step
         (if tx_type u = INCOME then js_add (totalBalance xs) (amount u)
          else js_sub (totalBalance xs) (amount u)) ys"
  "totalExpense (xs @ u # ys)
     = foldl (\<lambda>acc t. js_add acc (amount t))
         (if tx_type u = EXPENSE then js_add (totalExpense xs) (amount u) else totalExpense xs)
         (filter (\<lambda>t. tx_type t = EXPENSE) ys)"
  "totalIncome (xs @ u # ys)
     = foldl (\<lambda>acc t. js_add acc (amount t))
         (if tx_type u = INCOME then js_add (totalIncome xs) (amount u) else totalIncome xs)
         (filter (\<lambda>t. tx_type t = INCOME) ys)"
  by (cases "tx_type u"; simp add: totalBalance_def totalExpense_def totalIncome_def
      signed_step_def)+

text \<open>
  C5, as stated: the balance is exactly income minus expense. The balance is a running
  signed sum of its own, and in binary64 the two differ on the amounts 0.1 (income),
  0.3 (expense), 0.2 (income): the balance is \<open>2 ^ -55\<close> and income minus expense is
  \<open>2 ^ -54\<close>.
\<close>

theorem C5_balance_differs_on_tenths:
  "totalBalance tenths = Fin (1 / 36028797018963968)
   \<and> js_sub (totalIncome tenths) (totalExpense tenths) = Fin (1 / 18014398509481984)
   \<and> totalBalance tenths \<noteq> js_sub (totalIncome tenths) (totalExpense tenths)"
  by (simp add: totals_tenths tenths_sums del: js_add.simps)

lemma totals_exact:
  assumes "exact_amounts txs"
  shows "totalIncome txs = sum_amounts (filter (\<lambda>t. tx_type t = INCOME) txs)
    \<and> totalExpense txs = sum_amounts (filter (\<lambda>t. tx_type t = EXPENSE) txs)
    \<and> totalBalance txs = foldl signed_step (Fin 0) txs
    \<and> totalIncome [] = Fin 0 \<and> totalExpense [] = Fin 0 \<and> totalBalance [] = Fin 0
    \<and> totalIncome txs = Fin (sum_list (map (\<lambda>t. val (amount t)) (filter (\<lambda>t. tx_type t = INCOME) txs)))
    \<and> totalExpense txs = Fin (sum_list (map (\<lambda>t. val (amount t)) (filter (\<lambda>t. tx_type t = EXPENSE) txs)))
    \<and> totalBalance txs = js_sub (totalIncome txs) (totalExpense txs)
    \<and> totalBalance txs
        = Fin (sum_list (map (\<lambda>t. val (amount t)) (filter (\<lambda>t. tx_type t = INCOME) txs))
               - sum_list (map (\<lambda>t. val (amount t)) (filter (\<lambda>t. tx_type t = EXPENSE) txs)))"
proof -
  define I where "I = sum_list (map amount_int (filter (\<lambda>t. tx_type t = INCOME) txs))"
  define E where "E = sum_list (map amount_int (filter (\<lambda>t. tx_type t = EXPENSE) txs))"
  have w: "list_all (\<lambda>t. whole (amount t)) txs"
    using assms by (simp add: exact_amounts_def)
  have "of_int (sum_list (map amount_int txs)) \<le> (2 ^ 53 :: rat)"
    using assms by (simp add: exact_amounts_def val_sum [OF w])
  then have "of_int (sum_list (map amount_int txs)) \<le> (of_int (2 ^ 53) :: rat)"
    by simp
  then have total: "sum_list (map amount_int txs) \<le> 2 ^ 53"
    by (simp only: of_int_le_iff)
  have IE: "I + E = sum_list (map amount_int txs)"
    by (simp add: I_def E_def amount_int_split)
  have nonneg: "0 \<le> I" "0 \<le> E"
    using w by (simp_all add: I_def E_def amount_int_sum_nonneg list_all_filter)
  have inc: "totalIncome txs = Fin (of_int I)"
    using add_fold_exact [of "filter (\<lambda>t. tx_type t = INCOME) txs" 0] w total IE nonneg
    by (simp add: totalIncome_def I_def list_all_filter)
  have exp: "totalExpense txs = Fin (of_int E)"
    using add_fold_exact [of "filter (\<lambda>t. tx_type t = EXPENSE) txs" 0] w total IE nonneg
    by (simp add: totalExpense_def E_def list_all_filter)
  have bal: "totalBalance txs = Fin (of_int (I - E))"
    using signed_fold_exact [of txs 0] w total
    by (simp add: totalBalance_def I_def E_def)
  have "\<bar>I - E\<bar> \<le> 2 ^ 53"
    using nonneg IE total by simp
  then have sub: "js_sub (Fin (of_int I)) (Fin (of_int E)) = Fin (of_int (I - E))"
    by (rule js_sub_of_int)
  have vI: "sum_list (map (\<lambda>t. val (amount t)) (filter (\<lambda>t. tx_type t = INCOME) txs)) = of_int I"
    using w by (simp add: I_def val_sum list_all_filter)
  have vE: "sum_list (map (\<lambda>t. val (amount t)) (filter (\<lambda>t. tx_type t = EXPENSE) txs)) = of_int E"
    using w by (simp add: E_def val_sum list_all_filter)
  have defs:
    "totalIncome txs = sum_amounts (filter (\<lambda>t. tx_type t = INCOME) txs)"
    "totalExpense txs = sum_amounts (filter (\<lambda>t. tx_type t = EXPENSE) txs)"
    "totalBalance txs = foldl signed_step (Fin 0) txs"
    "totalIncome [] = Fin 0" "totalExpense [] = Fin 0" "totalBalance [] = Fin 0"
    by (simp_all add: totalIncome_def totalExpense_def totalBalance_def sum_amounts_def)
  have "totalBalance txs = js_sub (totalIncome txs) (totalExpense txs)"
    by (simp only: inc exp bal sub)
  moreover have "totalBalance txs = Fin (of_int I - of_int E)"
    using bal by simp
  ultimately show ?thesis
    using defs inc exp unfolding vI vE by blast
qed

lemma exact_amounts_sums:
  assumes "exact_amounts l"
  shows "exact_sums l"
proof -
  from totals_exact [OF assms]
  have "totalIncome l = sum_amounts (filter (\<lambda>t. tx_type t = INCOME) l)"
    and "totalExpense l = sum_amounts (filter (\<lambda>t. tx_type t = EXPENSE) l)"
    and "totalBalance l = foldl signed_step (Fin 0) l"
    and "totalIncome l = Fin (sum_list (map (\<lambda>t. val (amount t)) (filter (\<lambda>t. tx_type t = INCOME) l)))"
    and "totalExpense l = Fin (sum_list (map (\<lambda>t. val (amount t)) (filter (\<lambda>t. tx_type t = EXPENSE) l)))"
    and "totalBalance l
        = Fin (sum_list (map (\<lambda>t. val (amount t)) (filter (\<lambda>t. tx_type t = INCOME) l))
               - sum_list (map (\<lambda>t. val (amount t)) (filter (\<lambda>t. tx_type t = EXPENSE) l)))"
    by blast+
  then show ?thesis
    by (simp add: exact_sums_def)
qed

text \<open>
  A running signed sum is what an addition or a subtraction has answered, so it is a value
  that rounding leaves alone.
\<close>

lemma js_add_Fin_result:
  assumes "js_add x y = Fin r"
  shows "\<exists>a b. x = Fin a \<and> y = Fin b \<and> rnd (a + b) = Fin r"
  using assms by (cases x; cases y) simp_all

lemma signed_fold_representable:
  assumes "foldl signed_step (Fin 0) l = Fin r"
  shows "rnd r = Fin r"
proof (cases l rule: rev_cases)
  case Nil
  then show ?thesis
    using assms by (simp add: rnd_def)
next
  case (snoc ys t)
  define acc where "acc = foldl signed_step (Fin 0) ys"
  have "js_add acc (if tx_type t = INCOME then amount t else js_neg (amount t)) = Fin r"
    using assms by (cases "tx_type t = INCOME") (simp_all add: snoc acc_def signed_step_def js_sub_def)
  then obtain a b where "rnd (a + b) = Fin r"
    using js_add_Fin_result by blast
  then show ?thesis
    by (rule rnd_idem)
qed

lemma exact_sums_balance:
  assumes "exact_sums l"
  shows "foldl signed_step (Fin 0) l
         = js_sub (sum_amounts (filter (\<lambda>t. tx_type t = INCOME) l))
                  (sum_amounts (filter (\<lambda>t. tx_type t = EXPENSE) l))"
proof -
  define I where "I = sum_list (map (\<lambda>t. val (amount t)) (filter (\<lambda>t. tx_type t = INCOME) l))"
  define E where "E = sum_list (map (\<lambda>t. val (amount t)) (filter (\<lambda>t. tx_type t = EXPENSE) l))"
  have i: "sum_amounts (filter (\<lambda>t. tx_type t = INCOME) l) = Fin I"
    and x: "sum_amounts (filter (\<lambda>t. tx_type t = EXPENSE) l) = Fin E"
    and b: "foldl signed_step (Fin 0) l = Fin (I - E)"
    using assms unfolding exact_sums_def I_def E_def by blast+
  have "rnd (I - E) = Fin (I - E)"
    using b by (rule signed_fold_representable)
  then have "js_sub (Fin I) (Fin E) = Fin (I - E)"
    by (simp add: js_sub_def)
  then show ?thesis
    by (simp only: i x b)
qed

text \<open>
  C5, amended: for every transaction list, income is the sum of the amounts of the income
  transactions and expense the sum of the amounts of the expense transactions, each added
  from the left in floating point; the balance is the running signed sum over all
  transactions in list order, to which an income is added and from which an expense is
  subtracted; all three are zero for the empty list. Whenever the three
  sums carry no rounding error, the balance is exactly income minus expense; and they
  carry none when the amounts are whole numbers with a total of at most \<open>2 ^ 53\<close>.
\<close>

theorem C5_totals:
  "totalIncome txs = sum_amounts (filter (\<lambda>t. tx_type t = INCOME) txs)
   \<and> totalExpense txs = sum_amounts (filter (\<lambda>t. tx_type t = EXPENSE) txs)
   \<and> totalBalance txs = foldl signed_step (Fin 0) txs
   \<and> totalIncome [] = Fin 0 \<and> totalExpense [] = Fin 0 \<and> totalBalance [] = Fin 0
   \<and> totalIncome (xs @ [t])
       = (if tx_type t = INCOME then js_add (totalIncome xs) (amount t) else totalIncome xs)
   \<and> totalExpense (xs @ [t])
       = (if tx_type t = EXPENSE then js_add (totalExpense xs) (amount t) else totalExpense xs)
   \<and> totalBalance (xs @ [t])
       = (if tx_type t = INCOME then js_add (totalBalance xs) (amount t)
          else js_sub (totalBalance xs) (amount t))
   \<and> (exact_sums txs \<longrightarrow> totalBalance txs = js_sub (totalIncome txs) (totalExpense txs))
   \<and> (exact_amounts txs \<longrightarrow> exact_sums txs)"
proof -
  have step:
    "totalIncome (xs @ [t])
       = (if tx_type t = INCOME then js_add (totalIncome xs) (amount t) else totalIncome xs)"
    "totalExpense (xs @ [t])
       = (if tx_type t = EXPENSE then js_add (totalExpense xs) (amount t) else totalExpense xs)"
    "totalBalance (xs @ [t])
       = (if tx_type t = INCOME then js_add (totalBalance xs) (amount t)
          else js_sub (totalBalance xs) (amount t))"
    using totals_at [of xs t "[]"] by simp_all
  have defs:
    "totalIncome txs = sum_amounts (filter (\<lambda>t. tx_type t = INCOME) txs)"
    "totalExpense txs = sum_amounts (filter (\<lambda>t. tx_type t = EXPENSE) txs)"
    "totalBalance txs = foldl signed_step (Fin 0) txs"
    "totalIncome [] = Fin 0" "totalExpense [] = Fin 0" "totalBalance [] = Fin 0"
    by (simp_all add: totalIncome_def totalExpense_def totalBalance_def sum_amounts_def)
  have "totalBalance txs = js_sub (totalIncome txs) (totalExpense txs)" if "exact_sums txs"
    unfolding defs(1-3) using that by (rule exact_sums_balance)
  then show ?thesis
    using defs step exact_amounts_sums [of txs] by blast
qed

lemma exact_sample: "exact_amounts sample_txs"
  by (simp add: exact_amounts_def sample_txs_def whole_def val_def)

lemma rnd_quarters:
  "rnd (1 / 2) = Fin (1 / 2)" "rnd (1 / 4) = Fin (1 / 4)" "rnd 2745 = Fin 2745"
  by (simp_all add: rnd_eval)

lemma totals_sample:
  "totalIncome sample_txs = Fin 2800" "totalExpense sample_txs = Fin 55"
  "totalBalance sample_txs = Fin 2745"
  by (simp_all add: totalIncome_def totalExpense_def totalBalance_def sample_txs_def
      signed_step_def js_sub_def rnd_small rnd_eval)

lemma totals_quarters:
  "totalIncome quarters = Fin (1 / 2)" "totalExpense quarters = Fin (1 / 4)"
  "totalBalance quarters = Fin (1 / 4)"
  by (simp_all add: totalIncome_def totalExpense_def totalBalance_def quarters_def mk_tx_def
      signed_step_def js_sub_def rnd_quarters)

lemma exact_quarters: "exact_sums quarters"
  using totals_quarters
  by (simp add: exact_sums_def totalIncome_def totalExpense_def totalBalance_def sum_amounts_def)
    (simp add: quarters_def mk_tx_def val_def)

theorem C5_totals_witness:
  "exact_amounts sample_txs \<and> exact_sums sample_txs
   \<and> totalIncome sample_txs = Fin 2800
   \<and> totalExpense sample_txs = Fin 55
   \<and> totalBalance sample_txs = Fin 2745
   \<and> js_sub (Fin 2800) (Fin 55) = Fin 2745
   \<and> exact_sums quarters
   \<and> totalBalance quarters = Fin (1 / 4)
   \<and> js_sub (totalIncome quarters) (totalExpense quarters) = Fin (1 / 4)
   \<and> totalIncome [] = Fin 0 \<and> totalExpense [] = Fin 0 \<and> totalBalance [] = Fin 0"
proof -
  from C5_totals [of sample_txs] exact_sample
  have s: "exact_sums sample_txs"
    and c: "totalBalance sample_txs = js_sub (totalIncome sample_txs) (totalExpense sample_txs)"
    and z: "totalIncome [] = Fin 0" "totalExpense [] = Fin 0" "totalBalance [] = Fin 0"
    by blast+
  have C: "js_sub (Fin 2800) (Fin 55) = Fin 2745"
    using c by (simp only: totals_sample)
  from C5_totals [of quarters] exact_quarters
  have "totalBalance quarters = js_sub (totalIncome quarters) (totalExpense quarters)"
    by blast
  then have Q: "js_sub (totalIncome quarters) (totalExpense quarters) = Fin (1 / 4)"
    by (simp only: totals_quarters(3))
  show ?thesis
    using exact_sample s totals_sample C exact_quarters totals_quarters(3) Q z by blast
qed

section \<open>The expenses by category\<close>

lemma expense_step_unresolved:
  assumes "resolve u = None"
  shows "expense_step t acc u = acc"
  using assms by (simp add: expense_step_def)

lemma expense_fold_skip:
  assumes "resolve u = None"
  shows "foldl (expense_step t) acc (filter (\<lambda>tx. tx_type tx = EXPENSE) (xs @ u # ys))
         = foldl (expense_step t) acc (filter (\<lambda>tx. tx_type tx = EXPENSE) (xs @ ys))"
  using assms by (simp add: expense_step_unresolved)

lemma expense_add_names:
  "set (map e_name (expense_add n v c acc)) = insert n (set (map e_name acc))"
  by (induction acc) auto

lemma expense_add_distinct:
  "distinct (map e_name acc) \<Longrightarrow> distinct (map e_name (expense_add n v c acc))"
proof (induction acc)
  case Nil
  then show ?case by simp
next
  case (Cons e acc)
  then show ?case
    using expense_add_names [of n v c acc] by auto
qed

lemma js_add_Fin_not_NaN: "x \<noteq> NaN \<Longrightarrow> js_add x (Fin a) \<noteq> NaN"
  by (cases x) simp_all

lemma expense_add_values:
  assumes "\<forall>e \<in> set acc. e_value e \<noteq> NaN" and "is_finite v"
  shows "\<forall>e \<in> set (expense_add n v c acc). e_value e \<noteq> NaN"
  using assms
proof (induction acc)
  case Nil
  then show ?case by (cases v) (simp_all add: is_finite_def)
next
  case (Cons e acc)
  then show ?case
    by (cases v) (auto simp: is_finite_def js_add_Fin_not_NaN simp del: js_add.simps)
qed

lemma named_by_name:
  "e_name e' = e_name e \<Longrightarrow> named_by t txs e' = named_by t txs e"
  by (simp add: named_by_def cong: option.case_cong)

lemma expense_fold_invariant:
  assumes "list_all (\<lambda>tx. is_finite (amount tx)) l"
    and "distinct (map e_name acc)"
    and "\<forall>e \<in> set acc. e_value e \<noteq> NaN"
    and "\<forall>e \<in> set acc. named_by t txs e"
    and "set l \<subseteq> set txs" and "\<forall>tx \<in> set l. tx_type tx = EXPENSE"
  shows "distinct (map e_name (foldl (expense_step t) acc l))
       \<and> (\<forall>e \<in> set (foldl (expense_step t) acc l). e_value e \<noteq> NaN \<and> named_by t txs e)"
  using assms
proof (induction l arbitrary: acc)
  case Nil
  then show ?case by simp
next
  case (Cons tx l)
  show ?case
  proof (cases "resolve tx")
    case None
    then have "expense_step t acc tx = acc"
      by (rule expense_step_unresolved)
    then show ?thesis
      using Cons.IH [of acc] Cons.prems by simp
  next
    case (Some c)
    define acc' where "acc' = expense_add (catName_of t c) (amount tx) (parseColorClass (cat_color c)) acc"
    have step: "expense_step t acc tx = acc'"
      using Some by (simp add: expense_step_def acc'_def)
    have d: "distinct (map e_name acc')"
      using Cons.prems(2) by (simp add: acc'_def expense_add_distinct)
    have v: "\<forall>e \<in> set acc'. e_value e \<noteq> NaN"
      unfolding acc'_def using Cons.prems(1,3) by (intro expense_add_values) simp_all
    have new: "named_by t txs e" if "e_name e = catName_of t c" for e
      using that Some Cons.prems(5,6)
      by (auto simp: named_by_def list_ex_iff intro!: bexI [of _ tx])
    have names: "\<forall>e \<in> set acc'. e_name e = catName_of t c \<or> e_name e \<in> set (map e_name acc)"
      using expense_add_names [of "catName_of t c" "amount tx" "parseColorClass (cat_color c)" acc]
      by (auto simp: acc'_def)
    have old: "named_by t txs e" if "e_name e \<in> set (map e_name acc)" for e
    proof -
      from that obtain e' where "e' \<in> set acc" "e_name e' = e_name e"
        by auto
      then show ?thesis
        using Cons.prems(4) named_by_name [of e' e t txs] by blast
    qed
    have n: "\<forall>e \<in> set acc'. named_by t txs e"
      using names new old by blast
    show ?thesis
      using Cons.IH [of acc'] Cons.prems(1,5,6) d v n by (simp add: step)
  qed
qed

text \<open>The order of numbers that are not \<open>NaN\<close>, as a rank and a value.\<close>

lemma js_sub_positive_general:
  assumes "x \<noteq> NaN" and "y \<noteq> NaN"
  shows "js_gt (js_sub y x) (Fin 0) \<longleftrightarrow> js_lt x y"
  using assms
  by (cases x; cases y) (simp_all add: js_sub_positive_iff, simp_all add: js_sub_def js_gt_def)

lemma js_lt_rank:
  assumes "x \<noteq> NaN" and "y \<noteq> NaN"
  shows "js_lt x y \<longleftrightarrow>
    (case x of NegInf \<Rightarrow> - 1 | PosInf \<Rightarrow> 1 | _ \<Rightarrow> (0::int)) < (case y of NegInf \<Rightarrow> - 1 | PosInf \<Rightarrow> 1 | _ \<Rightarrow> 0)
    \<or> ((case x of NegInf \<Rightarrow> - 1 | PosInf \<Rightarrow> 1 | _ \<Rightarrow> (0::int)) = (case y of NegInf \<Rightarrow> - 1 | PosInf \<Rightarrow> 1 | _ \<Rightarrow> 0)
        \<and> val x < val y)"
  using assms by (cases x; cases y) (simp_all add: val_def)

lemma sorted_desc_by_value:
  fixes v :: "'a \<Rightarrow> number"
  assumes "\<forall>e \<in> set xs. v e \<noteq> NaN"
  shows "sorted_wrt (\<lambda>a b. js_le (v b) (v a)) (js_sort (\<lambda>a b. js_sub (v b) (v a)) xs)"
proof -
  define rk where "rk x = (case x of NegInf \<Rightarrow> - 1 | PosInf \<Rightarrow> 1 | _ \<Rightarrow> (0::int))" for x :: number
  define le where "le a b \<longleftrightarrow> rk (v b) < rk (v a) \<or> (rk (v b) = rk (v a) \<and> val (v b) \<le> val (v a))"
    for a b
  have lt: "js_lt x y \<longleftrightarrow> rk x < rk y \<or> (rk x = rk y \<and> val x < val y)"
    if "x \<noteq> NaN" "y \<noteq> NaN" for x y
    using js_lt_rank [OF that] by (simp add: rk_def)
  have "sorted_wrt le (js_sort (\<lambda>a b. js_sub (v b) (v a)) xs)"
  proof (rule sorted_wrt_js_sort)
    fix x y assume "x \<in> set xs" "y \<in> set xs"
    then have "v x \<noteq> NaN" "v y \<noteq> NaN"
      using assms by simp_all
    then show "js_gt (js_sub (v y) (v x)) (Fin 0) \<longleftrightarrow> \<not> le x y"
      by (auto simp: js_sub_positive_general lt le_def)
  next
    fix a b c assume "le a b" "le b c"
    then show "le a c"
      unfolding le_def by linarith
  next
    fix a b show "le a b \<or> le b a"
      unfolding le_def by linarith
  qed
  moreover have "js_le (v b) (v a)" if "le a b" "a \<in> set xs" "b \<in> set xs" for a b
  proof -
    have n: "v a \<noteq> NaN" "v b \<noteq> NaN"
      using assms that by simp_all
    have "\<not> js_lt (v a) (v b)"
      using that(1) by (simp add: lt [OF n] le_def) linarith
    then show ?thesis
      using n by (cases "v a"; cases "v b") (auto simp: js_le_def)
  qed
  ultimately show ?thesis
    by (rule sorted_wrt_mono_rel [rotated]) (simp_all add: set_js_sort)
qed

lemma expense_fold_names:
  "set (map e_name (foldl (expense_step t) acc l))
   = set (map e_name acc)
     \<union> set (concat (map (\<lambda>tx. case resolve tx of None \<Rightarrow> [] | Some c \<Rightarrow> [catName_of t c]) l))"
proof (induction l arbitrary: acc)
  case Nil
  then show ?case by simp
next
  case (Cons tx l)
  show ?case
  proof (cases "resolve tx")
    case None
    then show ?thesis
      using Cons [of acc] by (simp add: expense_step_def)
  next
    case (Some c)
    then show ?thesis
      using Cons [of "expense_add (catName_of t c) (amount tx) (parseColorClass (cat_color c)) acc"]
        expense_add_names [of "catName_of t c" "amount tx" "parseColorClass (cat_color c)" acc]
      by (simp add: expense_step_def)
  qed
qed

lemma expense_names_filter:
  "concat (map (\<lambda>tx. case resolve tx of None \<Rightarrow> [] | Some c \<Rightarrow> [catName_of t c])
             (filter (\<lambda>tx. tx_type tx = EXPENSE) txs))
   = expense_names t txs"
  by (induction txs) (simp_all add: expense_names_def)

lemma expenseData_names:
  "set (map e_name (expenseData t txs)) = set (expense_names t txs)"
proof -
  have "set (map e_name (expenseData t txs))
        = set (map e_name (foldl (expense_step t) [] (filter (\<lambda>tx. tx_type tx = EXPENSE) txs)))"
    by (simp add: expenseData_def set_js_sort)
  then show ?thesis
    by (simp only: expense_fold_names expense_names_filter) simp
qed

lemma income_categories: "c \<in> set INCOME_CATEGORIES \<Longrightarrow> cat_type c = INCOME"
  by (auto simp: INCOME_CATEGORIES_def mk_category_def)

lemma expense_names_by_type:
  assumes "filed_by_type txs"
  shows "set (expense_names t txs) \<subseteq> set (map (catName_of t) EXPENSE_CATEGORIES)"
proof
  fix n assume "n \<in> set (expense_names t txs)"
  then obtain tx c where tx: "tx \<in> set txs" "tx_type tx = EXPENSE" "resolve tx = Some c"
      and n: "n = catName_of t c"
    by (auto simp: expense_names_def split: if_splits option.splits) metis
  have "cat_type c = EXPENSE"
    using assms tx by (auto simp: filed_by_type_def list_all_iff)
  moreover have "c \<in> set ALL_CATEGORIES"
    using tx(3) by (auto simp: resolve_def find_Some_iff)
  ultimately have "c \<in> set EXPENSE_CATEGORIES"
    using income_categories [of c] by (auto simp: ALL_CATEGORIES_def)
  then show "n \<in> set (map (catName_of t) EXPENSE_CATEGORIES)"
    unfolding n by simp
qed

lemma expense_fold_distinct:
  "distinct (map e_name acc) \<Longrightarrow> distinct (map e_name (foldl (expense_step t) acc l))"
proof (induction l arbitrary: acc)
  case Nil
  then show ?case by simp
next
  case (Cons tx l)
  have "distinct (map e_name (expense_step t acc tx))"
    using Cons.prems by (cases "resolve tx") (simp_all add: expense_step_def expense_add_distinct)
  then show ?case
    using Cons.IH by simp
qed

lemma expense_names_named:
  assumes "e_name e \<in> set (expense_names t txs)"
  shows "named_by t txs e"
proof -
  from assms obtain tx c where "tx \<in> set txs" "tx_type tx = EXPENSE" "resolve tx = Some c"
      "e_name e = catName_of t c"
    by (auto simp: expense_names_def split: if_splits option.splits) metis
  then show ?thesis
    unfolding named_by_def list_ex_iff by (intro bexI [of _ tx]) simp_all
qed

text \<open>
  C9, as stated: the breakdown contains only resolvable EXPENSE categories. The category
  of an expense is looked up in the whole catalog, and the form keeps the chosen category
  when the type is switched: an expense filed under \<open>salary\<close> is in the breakdown under
  the name of that income category.
\<close>

theorem C9_income_category_in_breakdown:
  "tx_type tx_salary_expense = EXPENSE
   \<and> map_option cat_type (resolve tx_salary_expense) = Some INCOME
   \<and> map_option cat_name (resolve tx_salary_expense) = Some ''Salary''
   \<and> expenseData (\<lambda>key. []) [tx_salary_expense]
       = [\<lparr>e_name = ''Salary'', e_value = Fin 20, e_color = ''#8884d8''\<rparr>]"
proof -
  have f: "tx_type tx_salary_expense = EXPENSE" "amount tx_salary_expense = Fin 20"
    "categoryId tx_salary_expense = ''salary''"
    by (simp_all add: tx_salary_expense_def mk_tx_def)
  have r: "resolve tx_salary_expense
           = Some (mk_category ''salary'' ''Salary'' ''Briefcase''
                     ''bg-emerald-100 text-emerald-600'' INCOME)"
    by (simp add: resolve_def f ALL_CATEGORIES_def EXPENSE_CATEGORIES_def INCOME_CATEGORIES_def
        mk_category_def)
  have "expenseData (\<lambda>key. []) [tx_salary_expense]
       = [\<lparr>e_name = ''Salary'', e_value = Fin 20, e_color = ''#8884d8''\<rparr>]"
    by (simp add: expenseData_def f expense_step_def r catName_of_def parseColorClass_def
        js_sort_def) (simp add: mk_category_def)
  then show ?thesis
    using f(1) by (simp add: r mk_category_def)
qed

text \<open>
  C9, amended: a transaction whose category id is not in the catalog changes nothing in
  the expenses by category, and every transaction, with or without a catalog category,
  adds its amount to the totals where it stands in the list (to the expense or the income
  by its type, to the balance with the sign of its type). The breakdown has exactly one
  entry for each display name of a catalog category that an expense transaction resolves
  to, whatever the type of the category in the catalog; when every transaction has the
  type of its category these are expense categories only. For amounts that are finite
  numbers the entries are sorted by value, largest first.
\<close>

theorem C9_unresolved_category:
  "(resolve u = None \<longrightarrow> expenseData t (xs @ u # ys) = expenseData t (xs @ ys))
   \<and> totalBalance (xs @ u # ys)
       = foldl signed_step
           (if tx_type u = INCOME then js_add (totalBalance xs) (amount u)
            else js_sub (totalBalance xs) (amount u)) ys
   \<and> totalExpense (xs @ u # ys)
       = foldl (\<lambda>acc t. js_add acc (amount t))
           (if tx_type u = EXPENSE then js_add (totalExpense xs) (amount u) else totalExpense xs)
           (filter (\<lambda>t. tx_type t = EXPENSE) ys)
   \<and> totalIncome (xs @ u # ys)
       = foldl (\<lambda>acc t. js_add acc (amount t))
           (if tx_type u = INCOME then js_add (totalIncome xs) (amount u) else totalIncome xs)
           (filter (\<lambda>t. tx_type t = INCOME) ys)
   \<and> set (map e_name (expenseData t xs)) = set (expense_names t xs)
   \<and> distinct (map e_name (expenseData t xs))
   \<and> list_all (named_by t xs) (expenseData t xs)
   \<and> (filed_by_type xs \<longrightarrow>
        set (map e_name (expenseData t xs)) \<subseteq> set (map (catName_of t) EXPENSE_CATEGORIES))
   \<and> (list_all (\<lambda>tx. is_finite (amount tx)) xs \<longrightarrow>
        sorted_wrt (\<lambda>a b. js_le (e_value b) (e_value a)) (expenseData t xs))"
proof -
  define l where "l = filter (\<lambda>tx. tx_type tx = EXPENSE) xs"
  define D where "D = foldl (expense_step t) [] l"
  have skip: "expenseData t (xs @ u # ys) = expenseData t (xs @ ys)" if "resolve u = None"
    unfolding expenseData_def using expense_fold_skip [OF that] by simp
  have e: "expenseData t xs = js_sort (\<lambda>a b. js_sub (e_value b) (e_value a)) D"
    by (simp add: expenseData_def D_def l_def)
  have all_names: "set (map e_name (expenseData t xs)) = set (expense_names t xs)"
    by (rule expenseData_names)
  have "distinct (map e_name D)"
    unfolding D_def by (rule expense_fold_distinct) simp
  moreover have "mset (map e_name (expenseData t xs)) = mset (map e_name D)"
    by (simp add: e mset_js_sort)
  ultimately have dist: "distinct (map e_name (expenseData t xs))"
    by (metis mset_eq_imp_distinct_iff)
  have names: "list_all (named_by t xs) (expenseData t xs)"
    unfolding list_all_iff
  proof
    fix en assume "en \<in> set (expenseData t xs)"
    then have "e_name en \<in> set (expense_names t xs)"
      using all_names by auto
    then show "named_by t xs en"
      by (rule expense_names_named)
  qed
  have typed: "set (map e_name (expenseData t xs)) \<subseteq> set (map (catName_of t) EXPENSE_CATEGORIES)"
    if "filed_by_type xs"
    unfolding all_names using that by (rule expense_names_by_type)
  have srt: "sorted_wrt (\<lambda>a b. js_le (e_value b) (e_value a)) (expenseData t xs)"
    if fin: "list_all (\<lambda>tx. is_finite (amount tx)) xs"
  proof -
    have f: "list_all (\<lambda>tx. is_finite (amount tx)) l"
      using fin unfolding l_def by (rule list_all_filter)
    have sub: "set l \<subseteq> set xs"
      unfolding l_def by (rule filter_is_subset)
    have ex: "\<forall>tx \<in> set l. tx_type tx = EXPENSE"
      by (auto simp: l_def)
    have "distinct (map e_name D)
        \<and> (\<forall>e \<in> set D. e_value e \<noteq> NaN \<and> named_by t xs e)"
      unfolding D_def
    proof (rule expense_fold_invariant [OF f _ _ _ sub ex])
      show "distinct (map e_name [])" by simp
      show "\<forall>e \<in> set []. e_value e \<noteq> NaN" by simp
      show "\<forall>e \<in> set []. named_by t xs e" by simp
    qed
    then have "\<forall>e \<in> set D. e_value e \<noteq> NaN"
      by blast
    then show ?thesis
      unfolding e by (rule sorted_desc_by_value)
  qed
  show ?thesis
    using skip names dist srt all_names typed totals_at [of xs u ys] by blast
qed

lemma sample_fields_more [simp]:
  "tx_id tx5 = ''5''" "amount tx5 = Fin 7" "categoryId tx5 = ''mystery''" "tx_type tx5 = EXPENSE"
  "tx_id tx6 = ''6''" "amount tx6 = Fin 60" "categoryId tx6 = ''coffee''" "tx_type tx6 = EXPENSE"
  by (simp_all add: tx5_def tx6_def mk_tx_def)

lemma resolve_samples:
  "resolve tx1 = Some (mk_category ''food'' ''Food & Dining'' ''Utensils''
                        ''bg-orange-100 text-orange-600'' EXPENSE)"
  "resolve tx3 = Some (mk_category ''coffee'' ''Coffee'' ''Coffee''
                        ''bg-amber-100 text-amber-700'' EXPENSE)"
  "resolve tx6 = Some (mk_category ''coffee'' ''Coffee'' ''Coffee''
                        ''bg-amber-100 text-amber-700'' EXPENSE)"
  "resolve tx5 = None"
  by (simp_all add: resolve_def ALL_CATEGORIES_def EXPENSE_CATEGORIES_def INCOME_CATEGORIES_def
      mk_category_def)

lemma catName_samples:
  "catName_of sample_t (mk_category ''food'' ''Food & Dining'' ''Utensils''
                        ''bg-orange-100 text-orange-600'' EXPENSE) = ''Essen''"
  "catName_of sample_t (mk_category ''coffee'' ''Coffee'' ''Coffee''
                        ''bg-amber-100 text-amber-700'' EXPENSE) = ''cat_coffee''"
  by (simp_all add: catName_of_def sample_t_def mk_category_def)

lemma rnd_75: "rnd 75 = Fin 75"
  by (simp add: rnd_eval)

lemma expenseData_sample:
  "expenseData sample_t [tx1, tx3, tx6] =
     [\<lparr>e_name = ''cat_coffee'', e_value = Fin 75, e_color = ''#8884d8''\<rparr>,
      \<lparr>e_name = ''Essen'', e_value = Fin 40, e_color = ''#8884d8''\<rparr>]"
proof -
  have "foldl (expense_step sample_t) [] (filter (\<lambda>tx. tx_type tx = EXPENSE) [tx1, tx3, tx6]) =
     [\<lparr>e_name = ''Essen'', e_value = Fin 40, e_color = ''#8884d8''\<rparr>,
      \<lparr>e_name = ''cat_coffee'', e_value = Fin 75, e_color = ''#8884d8''\<rparr>]"
    by (simp add: expense_step_def resolve_samples catName_samples parseColorClass_def rnd_75)
  then show ?thesis
    by (simp add: expenseData_def js_sub_positive_iff js_sort_def)
qed

lemma rnd_totals_more:
  "rnd (- 40) = Fin (- 40)" "rnd (- 55) = Fin (- 55)" "rnd (- 62) = Fin (- 62)"
  "rnd (- 122) = Fin (- 122)" "rnd 62 = Fin 62" "rnd 122 = Fin 122" "rnd 115 = Fin 115"
  "rnd (- 115) = Fin (- 115)"
  by (simp_all add: rnd_eval)

lemma totals_with_unresolved:
  "totalExpense [tx1, tx3, tx6] = Fin 115" "totalBalance [tx1, tx3, tx6] = Fin (- 115)"
  "totalExpense [tx1, tx3, tx5, tx6] = Fin 122" "totalBalance [tx1, tx3, tx5, tx6] = Fin (- 122)"
  "totalIncome [tx1, tx3, tx5, tx6] = Fin 0"
  by (simp_all add: totalExpense_def totalBalance_def totalIncome_def signed_step_def js_sub_def
      rnd_small rnd_totals_more)

theorem C9_unresolved_category_witness:
  "resolve tx5 = None \<and> amount tx5 = Fin 7
   \<and> expenseData sample_t [tx1, tx3, tx5, tx6] =
       [\<lparr>e_name = ''cat_coffee'', e_value = Fin 75, e_color = ''#8884d8''\<rparr>,
        \<lparr>e_name = ''Essen'', e_value = Fin 40, e_color = ''#8884d8''\<rparr>]
   \<and> totalExpense [tx1, tx3, tx6] = Fin 115 \<and> totalExpense [tx1, tx3, tx5, tx6] = Fin 122
   \<and> totalBalance [tx1, tx3, tx6] = Fin (- 115) \<and> totalBalance [tx1, tx3, tx5, tx6] = Fin (- 122)
   \<and> totalBalance ([tx1, tx3] @ tx5 # [tx6])
       = foldl signed_step (js_sub (totalBalance [tx1, tx3]) (Fin 7)) [tx6]
   \<and> totalExpense ([tx1, tx3] @ tx5 # [tx6])
       = js_add (js_add (totalExpense [tx1, tx3]) (Fin 7)) (Fin 60)
   \<and> list_all (named_by sample_t [tx1, tx3, tx6]) (expenseData sample_t [tx1, tx3, tx6])"
proof -
  from C9_unresolved_category [of tx5 sample_t "[tx1, tx3]" "[tx6]"] resolve_samples(4)
  have a: "expenseData sample_t ([tx1, tx3] @ tx5 # [tx6]) = expenseData sample_t ([tx1, tx3] @ [tx6])"
    and b: "totalBalance ([tx1, tx3] @ tx5 # [tx6])
       = foldl signed_step (if tx_type tx5 = INCOME then js_add (totalBalance [tx1, tx3]) (amount tx5)
            else js_sub (totalBalance [tx1, tx3]) (amount tx5)) [tx6]"
    and c: "totalExpense ([tx1, tx3] @ tx5 # [tx6])
       = foldl (\<lambda>acc t. js_add acc (amount t))
           (if tx_type tx5 = EXPENSE then js_add (totalExpense [tx1, tx3]) (amount tx5)
            else totalExpense [tx1, tx3])
           (filter (\<lambda>t. tx_type t = EXPENSE) [tx6])"
    by blast+
  from C9_unresolved_category [of tx5 sample_t "[tx1, tx3, tx6]" "[]"]
  have d: "list_all (named_by sample_t [tx1, tx3, tx6]) (expenseData sample_t [tx1, tx3, tx6])"
    by blast
  show ?thesis
    using resolve_samples(4) expenseData_sample totals_with_unresolved a b c d
    by (simp del: js_add.simps)
qed

section \<open>The net asset trend\<close>

lemma length_net_points [simp]: "length (net_points h txs Y rb ms) = length ms"
  by (induction ms arbitrary: rb) (simp_all add: Let_def)

lemma net_points_months: "map p_month (net_points h txs Y rb ms) = map (monthName h Y) ms"
  by (induction ms arbitrary: rb) (simp_all add: Let_def)

lemma net_points_nth:
  assumes "k < length ms"
  shows "p_netAsset (net_points h txs Y rb ms ! k)
         = js_add (if k = 0 then rb else p_netAsset (net_points h txs Y rb ms ! (k - 1)))
                  (monthlySurplus h txs Y (ms ! k))"
  using assms
proof (induction ms arbitrary: rb k)
  case Nil
  then show ?case by simp
next
  case (Cons m ms)
  show ?case
  proof (cases k)
    case 0
    then show ?thesis by (simp add: Let_def)
  next
    case (Suc j)
    then have j: "j < length ms"
      using Cons.prems by simp
    show ?thesis
    proof (cases j)
      case 0
      then show ?thesis
        using Suc j Cons.IH [OF j, of "js_add rb (monthlySurplus h txs Y m)"]
        by (simp add: Let_def)
    next
      case (Suc i)
      then show ?thesis
        using \<open>k = Suc j\<close> j Cons.IH [OF j, of "js_add rb (monthlySurplus h txs Y m)"]
        by (simp add: Let_def)
    qed
  qed
qed

lemma point_step:
  assumes "k < 12"
  shows "point h txs Y k
         = js_add (if k = 0 then startBalance h txs Y else point h txs Y (k - 1))
                  (monthlySurplus h txs Y k)"
  using assms net_points_nth [of k "[0..<12]" h txs Y "startBalance h txs Y"]
  by (simp add: point_def netAssetData_def del: upt_Suc)

lemma monthlyTransactions_in_months:
  "monthlyTransactions h txs Y k = filter (in_months h Y k k) txs"
proof -
  have "(strict_eq (getFullYear h (date tx)) (Some Y) \<and> strict_eq (getMonth h (date tx)) (Some k))
        = in_months h Y k k tx" for tx
    by (cases "getMonth h (date tx)") (auto simp: in_months_def strict_eq_def)
  then show ?thesis
    by (simp add: monthlyTransactions_def)
qed

lemma signed_int_split:
  "signed_int txs = sum_list (map amount_int (filter (\<lambda>t. tx_type t = INCOME) txs))
                    - sum_list (map amount_int (filter (\<lambda>t. tx_type t = EXPENSE) txs))"
proof (induction txs)
  case Nil
  then show ?case by (simp add: signed_int_def)
next
  case (Cons t txs)
  then show ?case by (cases "tx_type t") (simp_all add: signed_int_def)
qed

lemma abs_signed_int:
  assumes "list_all (\<lambda>t. whole (amount t)) txs"
  shows "\<bar>signed_int txs\<bar> \<le> sum_list (map amount_int txs)"
proof -
  have "0 \<le> sum_list (map amount_int (filter (\<lambda>t. tx_type t = INCOME) txs))"
    "0 \<le> sum_list (map amount_int (filter (\<lambda>t. tx_type t = EXPENSE) txs))"
    using assms by (simp_all add: amount_int_sum_nonneg list_all_filter)
  then show ?thesis
    using amount_int_split [of txs] by (simp add: signed_int_split)
qed

lemma amount_int_filter_le:
  assumes "list_all (\<lambda>t. whole (amount t)) txs"
  shows "sum_list (map amount_int (filter P txs)) \<le> sum_list (map amount_int txs)"
  using assms
proof (induction txs)
  case Nil
  then show ?case by simp
next
  case (Cons t txs)
  then show ?case
    using whole_amount(1) [of t] by auto
qed

lemma signed_int_disjoint:
  assumes "\<And>t. \<not> (P t \<and> Q t)"
  shows "signed_int (filter P txs) + signed_int (filter Q txs)
         = signed_int (filter (\<lambda>t. P t \<or> Q t) txs)"
proof (induction txs)
  case Nil
  then show ?case by (simp add: signed_int_def)
next
  case (Cons t txs)
  then show ?case
    using assms [of t] by (auto simp: signed_int_def)
qed

lemma exact_total:
  assumes "exact_amounts txs"
  shows "list_all (\<lambda>t. whole (amount t)) txs" and "sum_list (map amount_int txs) \<le> 2 ^ 53"
proof -
  show w: "list_all (\<lambda>t. whole (amount t)) txs"
    using assms by (simp add: exact_amounts_def)
  have "of_int (sum_list (map amount_int txs)) \<le> (2 ^ 53 :: rat)"
    using assms by (simp add: exact_amounts_def val_sum [OF w])
  then have "of_int (sum_list (map amount_int txs)) \<le> (of_int (2 ^ 53) :: rat)"
    by simp
  then show "sum_list (map amount_int txs) \<le> 2 ^ 53"
    by (simp only: of_int_le_iff)
qed

lemma exact_filter_bound:
  assumes "exact_amounts txs"
  shows "\<bar>signed_int (filter P txs)\<bar> \<le> 2 ^ 53"
proof -
  have "\<bar>signed_int (filter P txs)\<bar> \<le> sum_list (map amount_int (filter P txs))"
    using exact_total(1) [OF assms] by (intro abs_signed_int list_all_filter)
  also have "\<dots> \<le> sum_list (map amount_int txs)"
    using exact_total(1) [OF assms] by (rule amount_int_filter_le)
  also have "\<dots> \<le> 2 ^ 53"
    by (rule exact_total(2) [OF assms])
  finally show ?thesis .
qed

lemma exact_filter_fold:
  assumes "exact_amounts txs"
  shows "foldl signed_step (Fin 0) (filter P txs) = Fin (of_int (signed_int (filter P txs)))"
proof -
  have w: "list_all (\<lambda>t. whole (amount t)) (filter P txs)"
    using exact_total(1) [OF assms] by (rule list_all_filter)
  have "sum_list (map amount_int (filter P txs)) \<le> sum_list (map amount_int txs)"
    using exact_total(1) [OF assms] by (rule amount_int_filter_le)
  then have b: "\<bar>0\<bar> + sum_list (map amount_int (filter P txs)) \<le> 2 ^ 53"
    using exact_total(2) [OF assms] by simp
  show ?thesis
    using signed_fold_exact [OF w b] by (simp add: signed_int_split)
qed

lemma exact_filter_add:
  assumes "exact_amounts txs" and "\<And>t. \<not> (P t \<and> Q t)"
  shows "js_add (Fin (of_int (signed_int (filter P txs)))) (Fin (of_int (signed_int (filter Q txs))))
         = Fin (of_int (signed_int (filter (\<lambda>t. P t \<or> Q t) txs)))"
proof -
  have "\<bar>signed_int (filter P txs) + signed_int (filter Q txs)\<bar> \<le> 2 ^ 53"
    unfolding signed_int_disjoint [of P Q, OF assms(2)]
    by (rule exact_filter_bound [OF assms(1)])
  then show ?thesis
    unfolding signed_int_disjoint [of P Q, OF assms(2), symmetric]
    by (rule js_add_of_int)
qed

lemma before_not_in_months: "\<not> (before_year h Y t \<and> in_months h Y lo hi t)"
  by (cases "getFullYear h (date t)") (auto simp: before_year_def in_months_def strict_eq_def)

lemma point_exact:
  assumes "exact_amounts txs" and "k < 12"
  shows "point h txs Y k
         = Fin (of_int (signed_int (filter (\<lambda>t. before_year h Y t \<or> in_months h Y 0 k t) txs)))"
  using assms(2)
proof (induction k)
  case 0
  have "point h txs Y 0 = js_add (startBalance h txs Y) (monthlySurplus h txs Y 0)"
    using point_step [of 0 h txs Y] by simp
  also have "startBalance h txs Y = Fin (of_int (signed_int (filter (before_year h Y) txs)))"
    using exact_filter_fold [OF assms(1), of "before_year h Y"]
    by (simp add: startBalance_def before_year_def [abs_def])
  also have "monthlySurplus h txs Y 0 = Fin (of_int (signed_int (filter (in_months h Y 0 0) txs)))"
    using exact_filter_fold [OF assms(1)]
    by (simp add: monthlySurplus_def monthlyTransactions_in_months)
  finally show ?case
    using exact_filter_add [OF assms(1), of "before_year h Y" "in_months h Y 0 0"]
      before_not_in_months by simp
next
  case (Suc k)
  then have k: "k < 12" by simp
  define C where "C = (\<lambda>t. before_year h Y t \<or> in_months h Y 0 k t)"
  have dis: "\<not> (C t \<and> in_months h Y (Suc k) (Suc k) t)" for t
    using before_not_in_months [of h Y t "Suc k" "Suc k"]
    by (cases "getMonth h (date t)") (auto simp: C_def in_months_def)
  have un: "(C t \<or> in_months h Y (Suc k) (Suc k) t)
            = (before_year h Y t \<or> in_months h Y 0 (Suc k) t)" for t
    by (cases "getMonth h (date t)") (auto simp: C_def in_months_def)
  have "point h txs Y (Suc k) = js_add (point h txs Y k) (monthlySurplus h txs Y (Suc k))"
    using point_step [OF Suc.prems, of h txs Y] by simp
  also have "point h txs Y k = Fin (of_int (signed_int (filter C txs)))"
    using Suc.IH [OF k] by (simp add: C_def)
  also have "monthlySurplus h txs Y (Suc k)
             = Fin (of_int (signed_int (filter (in_months h Y (Suc k) (Suc k)) txs)))"
    using exact_filter_fold [OF assms(1)]
    by (simp add: monthlySurplus_def monthlyTransactions_in_months)
  finally show ?case
    using exact_filter_add [OF assms(1), of C "in_months h Y (Suc k) (Suc k)"] dis
    by (simp add: un)
qed

lemma first_minus_last_exact:
  assumes "exact_amounts txs"
  shows "js_sub (point h txs Y 0) (point h txs Y 11)
         = js_neg (foldl signed_step (Fin 0) (filter (in_months h Y 1 11) txs))"
proof -
  define C where "C = (\<lambda>t. before_year h Y t \<or> in_months h Y 0 0 t)"
  define A where "A = signed_int (filter C txs)"
  define F where "F = signed_int (filter (in_months h Y 1 11) txs)"
  have dis: "\<not> (C t \<and> in_months h Y 1 11 t)" for t
    using before_not_in_months [of h Y t 1 11]
    by (cases "getMonth h (date t)") (auto simp: C_def in_months_def)
  have un: "(C t \<or> in_months h Y 1 11 t)
            = (before_year h Y t \<or> in_months h Y 0 11 t)" for t
    by (cases "getMonth h (date t)") (auto simp: C_def in_months_def)
  have p0: "point h txs Y 0 = Fin (of_int A)"
    using point_exact [OF assms, of 0 h Y] by (simp add: A_def C_def)
  have "filter (\<lambda>t. before_year h Y t \<or> in_months h Y 0 11 t) txs
        = filter (\<lambda>t. C t \<or> in_months h Y 1 11 t) txs"
    by (simp only: un)
  moreover have "signed_int (filter (\<lambda>t. C t \<or> in_months h Y 1 11 t) txs) = A + F"
    unfolding A_def F_def by (rule signed_int_disjoint [symmetric]) (rule dis)
  ultimately
  have "signed_int (filter (\<lambda>t. before_year h Y t \<or> in_months h Y 0 11 t) txs) = A + F"
    by simp
  then have p11: "point h txs Y 11 = Fin (of_int (A + F))"
    using point_exact [OF assms, of 11 h Y] by simp
  have "\<bar>A - (A + F)\<bar> \<le> 2 ^ 53"
    using exact_filter_bound [OF assms, of "in_months h Y 1 11"] by (simp add: F_def)
  then have "js_sub (Fin (of_int A)) (Fin (of_int (A + F))) = Fin (of_int (A - (A + F)))"
    by (rule js_sub_of_int)
  moreover have "foldl signed_step (Fin 0) (filter (in_months h Y 1 11) txs) = Fin (of_int F)"
    using exact_filter_fold [OF assms] by (simp add: F_def)
  ultimately show ?thesis
    by (simp add: p0 p11 del: js_add.simps)
qed

lemma upt_12: "[0..<12] = [0, 1, 2, 3, 4, 5, 6, 7, 8, 9, 10, 11]"
  by code_simp

lemma sample_fields_trend [simp]:
  "amount tx7 = Fin 100" "date tx7 = ''2024-03-05T08:00''" "tx_type tx7 = EXPENSE"
  "amount tx8 = Fin 1000" "date tx8 = ''2023-12-15T10:00''" "tx_type tx8 = INCOME"
  by (simp_all add: tx7_def tx8_def mk_tx_def)

lemma parse_trend:
  "utc_parse ''2024-03-05T08:00'' = Some 1709625600000"
  "utc_parse ''2023-12-15T10:00'' = Some 1702634400000"
  by (simp_all add: utc_parse_eval)

lemma fields_trend:
  "utc_year 1709625600000 = 2024" "utc_month 1709625600000 = 2"
  "utc_year 1702634400000 = 2023" "utc_month 1702634400000 = 11"
  by (simp_all add: utc_fields_eval)

lemma year_month_trend:
  "getFullYear utc_host ''2024-01-01T18:00'' = Some 2024"
  "getMonth utc_host ''2024-01-01T18:00'' = Some 0"
  "getFullYear utc_host ''2024-03-05T08:00'' = Some 2024"
  "getMonth utc_host ''2024-03-05T08:00'' = Some 2"
  "getFullYear utc_host ''2023-12-15T10:00'' = Some 2023"
  "getMonth utc_host ''2023-12-15T10:00'' = Some 11"
  by (simp_all add: getFullYear_def getMonth_def parse_samples parse_trend fields_samples
      fields_trend)

lemma rnd_trend:
  "rnd 1000 = Fin 1000" "rnd 3500 = Fin 3500" "rnd 3400 = Fin 3400"
  "rnd (- 100) = Fin (- 100)" "rnd 100 = Fin 100" "rnd (- 2500) = Fin (- 2500)"
  by (simp_all add: rnd_eval)

lemma surplus_trend:
  "startBalance utc_host trend_txs 2024 = Fin 1000"
  "monthlySurplus utc_host trend_txs 2024 0 = Fin 2500"
  "monthlySurplus utc_host trend_txs 2024 2 = Fin (- 100)"
  "k \<noteq> 0 \<Longrightarrow> k \<noteq> 2 \<Longrightarrow> monthlySurplus utc_host trend_txs 2024 k = Fin 0"
  by (simp_all add: startBalance_def monthlySurplus_def monthlyTransactions_def trend_txs_def
      year_month_trend strict_eq_def signed_step_def js_sub_def rnd_trend rnd_small)

lemma points_trend:
  "map p_netAsset (netAssetData utc_host trend_txs 2024) =
     [Fin 3500, Fin 3500, Fin 3400, Fin 3400, Fin 3400, Fin 3400,
      Fin 3400, Fin 3400, Fin 3400, Fin 3400, Fin 3400, Fin 3400]"
  by (simp add: netAssetData_def upt_12 Let_def surplus_trend rnd_trend)

lemma month_starts_2024:
  "utc_month (utc_month_start 2024 0) = 0" "utc_month (utc_month_start 2024 1) = 1"
  "utc_month (utc_month_start 2024 2) = 2" "utc_month (utc_month_start 2024 3) = 3"
  "utc_month (utc_month_start 2024 4) = 4" "utc_month (utc_month_start 2024 5) = 5"
  "utc_month (utc_month_start 2024 6) = 6" "utc_month (utc_month_start 2024 7) = 7"
  "utc_month (utc_month_start 2024 8) = 8" "utc_month (utc_month_start 2024 9) = 9"
  "utc_month (utc_month_start 2024 10) = 10" "utc_month (utc_month_start 2024 11) = 11"
  "utc_month (utc_month_start 2024 (Suc 0)) = 1"
  by (simp_all add: utc_month_start_def days_from_civil_def utc_fields_eval)

lemma months_2024:
  "map (monthName utc_host 2024) [0..<12] = month_abbr"
  by (simp add: upt_12 monthName_def month_starts_2024 month_abbr_def)

lemma points_single:
  "map p_netAsset (netAssetData utc_host [tx2] 2024) =
     [Fin 2500, Fin 2500, Fin 2500, Fin 2500, Fin 2500, Fin 2500,
      Fin 2500, Fin 2500, Fin 2500, Fin 2500, Fin 2500, Fin 2500]"
proof -
  have s: "startBalance utc_host [tx2] 2024 = Fin 0"
    "monthlySurplus utc_host [tx2] 2024 0 = Fin 2500"
    "k \<noteq> 0 \<Longrightarrow> monthlySurplus utc_host [tx2] 2024 k = Fin 0" for k
    by (simp_all add: startBalance_def monthlySurplus_def monthlyTransactions_def
        year_month_trend strict_eq_def signed_step_def rnd_small)
  show ?thesis
    by (simp add: netAssetData_def upt_12 Let_def s rnd_small)
qed

text \<open>
  C1, as stated: the balance of the first point minus the balance of the last is the
  negated sum of the year's signed transactions. The first point already holds
  January: with the single income of 2500 on 1 January 2024, all twelve points of 2024
  are 2500 and the difference is 0, while the negated sum of the year is -2500.
\<close>

theorem C1_first_point_holds_january:
  "js_sub (point utc_host [tx2] 2024 0) (point utc_host [tx2] 2024 11) = Fin 0
   \<and> js_neg (foldl signed_step (Fin 0) (filter (in_months utc_host 2024 0 11) [tx2]))
       = Fin (- 2500)"
proof -
  have "point utc_host [tx2] 2024 0 = Fin 2500" "point utc_host [tx2] 2024 11 = Fin 2500"
    using points_single length_net_points [of utc_host "[tx2]" 2024 "startBalance utc_host [tx2] 2024" "[0..<12]"]
    by (simp_all add: point_def nth_map [symmetric] netAssetData_def del: upt_Suc)
  then show ?thesis
    by (simp add: js_sub_def rnd_eval in_months_def year_month_trend strict_eq_def
        signed_step_def rnd_small)
qed

text \<open>
  C1, amended: for every transaction list and every year \<open>Y\<close> the trend has exactly 12
  points, also when the year has no transaction, labelled with the host's short names of
  the months of \<open>Y\<close>; the starting balance is the signed sum of the transactions dated
  before \<open>Y\<close>; the first point is the starting balance plus the signed surplus of
  January, and every later point is the point before it plus the signed surplus of its
  month. The first point therefore holds January already: when the amounts are whole
  numbers with a total of at most \<open>2 ^ 53\<close>, so that no addition rounds, its balance minus
  that of the last point is the negated signed sum of the year's transactions of February
  to December.
\<close>

theorem C1_net_asset_trend:
  "length (netAssetData h txs Y) = 12
   \<and> length (netAssetData h [] Y) = 12
   \<and> map p_month (netAssetData h txs Y) = map (monthName h Y) [0..<12]
   \<and> startBalance h txs Y = foldl signed_step (Fin 0) (filter (before_year h Y) txs)
   \<and> point h txs Y 0 = js_add (startBalance h txs Y) (monthlySurplus h txs Y 0)
   \<and> (\<forall>k. 0 < k \<and> k < 12 \<longrightarrow>
         point h txs Y k = js_add (point h txs Y (k - 1)) (monthlySurplus h txs Y k))
   \<and> (\<forall>k. monthlySurplus h txs Y k
            = foldl signed_step (Fin 0) (filter (in_months h Y k k) txs))
   \<and> (exact_amounts txs \<longrightarrow>
         js_sub (point h txs Y 0) (point h txs Y 11)
           = js_neg (foldl signed_step (Fin 0) (filter (in_months h Y 1 11) txs)))"
proof -
  have len: "length (netAssetData h l Y) = 12" for l
    by (simp add: netAssetData_def del: upt_Suc)
  have months: "map p_month (netAssetData h txs Y) = map (monthName h Y) [0..<12]"
    unfolding netAssetData_def by (rule net_points_months)
  have start: "startBalance h txs Y = foldl signed_step (Fin 0) (filter (before_year h Y) txs)"
    by (simp add: startBalance_def before_year_def [abs_def])
  have first: "point h txs Y 0 = js_add (startBalance h txs Y) (monthlySurplus h txs Y 0)"
    using point_step [of 0 h txs Y] by simp
  have later: "point h txs Y k = js_add (point h txs Y (k - 1)) (monthlySurplus h txs Y k)"
    if "0 < k \<and> k < 12" for k
    using point_step [of k h txs Y] that by simp
  have surplus: "monthlySurplus h txs Y k
      = foldl signed_step (Fin 0) (filter (in_months h Y k k) txs)" for k
    by (simp add: monthlySurplus_def monthlyTransactions_in_months)
  have diff: "js_sub (point h txs Y 0) (point h txs Y 11)
      = js_neg (foldl signed_step (Fin 0) (filter (in_months h Y 1 11) txs))"
    if "exact_amounts txs"
    using that by (rule first_minus_last_exact)
  show ?thesis
    using len months start first later surplus diff by blast
qed

lemma exact_trend: "exact_amounts trend_txs"
  by (simp add: exact_amounts_def trend_txs_def whole_def val_def)

theorem C1_net_asset_trend_witness:
  "exact_amounts trend_txs
   \<and> length (netAssetData utc_host trend_txs 2024) = 12
   \<and> map p_month (netAssetData utc_host trend_txs 2024) = month_abbr
   \<and> map p_netAsset (netAssetData utc_host trend_txs 2024) =
       [Fin 3500, Fin 3500, Fin 3400, Fin 3400, Fin 3400, Fin 3400,
        Fin 3400, Fin 3400, Fin 3400, Fin 3400, Fin 3400, Fin 3400]
   \<and> js_sub (point utc_host trend_txs 2024 0) (point utc_host trend_txs 2024 11) = Fin 100
   \<and> foldl signed_step (Fin 0) (filter (in_months utc_host 2024 1 11) trend_txs) = Fin (- 100)"
proof -
  have f: "foldl signed_step (Fin 0) (filter (in_months utc_host 2024 1 11) trend_txs)
           = Fin (- 100)"
    by (simp add: trend_txs_def in_months_def year_month_trend strict_eq_def signed_step_def
        js_sub_def rnd_trend)
  from C1_net_asset_trend [of utc_host trend_txs 2024] exact_trend
  have "length (netAssetData utc_host trend_txs 2024) = 12"
    and "map p_month (netAssetData utc_host trend_txs 2024) = map (monthName utc_host 2024) [0..<12]"
    and "js_sub (point utc_host trend_txs 2024 0) (point utc_host trend_txs 2024 11)
         = js_neg (foldl signed_step (Fin 0) (filter (in_months utc_host 2024 1 11) trend_txs))"
    by blast+
  then show ?thesis
    using exact_trend points_trend f by (simp add: months_2024)
qed

text \<open>
  In floating point the difference of the first and the last point is the negated sum of
  February to December only up to rounding: with an income of 0.1 in January and one of
  0.2 in February the two are one unit in the last place apart.
\<close>

lemma parse_february: "utc_parse ''2024-02-01T09:00'' = Some 1706778000000"
  by (simp add: utc_parse_eval)

lemma fields_february: "utc_year 1706778000000 = 2024" "utc_month 1706778000000 = 1"
  by (simp_all add: utc_fields_eval)

lemma year_month_february:
  "getFullYear utc_host ''2024-01-01T09:00'' = Some 2024"
  "getMonth utc_host ''2024-01-01T09:00'' = Some 0"
  "getFullYear utc_host ''2024-02-01T09:00'' = Some 2024"
  "getMonth utc_host ''2024-02-01T09:00'' = Some 1"
  by (simp_all add: getFullYear_def getMonth_def parse_2024_01_01_0900 fields_2024_01_01_0900
      parse_february fields_february)

lemma tenths_trend_sums:
  "js_add (Fin 0) (Fin (3602879701896397 / 18014398509481984))
     = Fin (3602879701896397 / 18014398509481984)"
  "js_add (Fin (1351079888211149 / 4503599627370496)) (Fin 0)
     = Fin (1351079888211149 / 4503599627370496)"
  "js_sub (Fin (3602879701896397 / 36028797018963968)) (Fin (1351079888211149 / 4503599627370496))
     = Fin (- (7205759403792795 / 36028797018963968))"
  by (simp_all add: js_sub_def rnd_eval)

lemma surplus_tenths:
  "startBalance utc_host trend_tenths 2024 = Fin 0"
  "monthlySurplus utc_host trend_tenths 2024 0 = Fin (3602879701896397 / 36028797018963968)"
  "monthlySurplus utc_host trend_tenths 2024 (Suc 0) = Fin (3602879701896397 / 18014398509481984)"
  "1 < k \<Longrightarrow> monthlySurplus utc_host trend_tenths 2024 k = Fin 0"
  by (simp_all add: startBalance_def monthlySurplus_def monthlyTransactions_def trend_tenths_def
      mk_tx_def year_month_february strict_eq_def signed_step_def parseFloat_tenths tenths_sums
      tenths_trend_sums del: js_add.simps)

lemma points_tenths:
  "map p_netAsset (netAssetData utc_host trend_tenths 2024) =
     [Fin (3602879701896397 / 36028797018963968),
      Fin (1351079888211149 / 4503599627370496), Fin (1351079888211149 / 4503599627370496),
      Fin (1351079888211149 / 4503599627370496), Fin (1351079888211149 / 4503599627370496),
      Fin (1351079888211149 / 4503599627370496), Fin (1351079888211149 / 4503599627370496),
      Fin (1351079888211149 / 4503599627370496), Fin (1351079888211149 / 4503599627370496),
      Fin (1351079888211149 / 4503599627370496), Fin (1351079888211149 / 4503599627370496),
      Fin (1351079888211149 / 4503599627370496)]"
  by (simp add: netAssetData_def upt_12 Let_def surplus_tenths tenths_sums tenths_trend_sums
      del: js_add.simps)

lemma trend_difference_rounds:
  "js_sub (point utc_host trend_tenths 2024 0) (point utc_host trend_tenths 2024 11)
     = Fin (- (7205759403792795 / 36028797018963968))"
  "js_neg (foldl signed_step (Fin 0) (filter (in_months utc_host 2024 1 11) trend_tenths))
     = Fin (- (7205759403792794 / 36028797018963968))"
proof -
  have "point utc_host trend_tenths 2024 0 = Fin (3602879701896397 / 36028797018963968)"
    "point utc_host trend_tenths 2024 11 = Fin (1351079888211149 / 4503599627370496)"
    using points_tenths
      length_net_points [of utc_host trend_tenths 2024 "startBalance utc_host trend_tenths 2024" "[0..<12]"]
    by (simp_all add: point_def nth_map [symmetric] netAssetData_def del: upt_Suc)
  then show "js_sub (point utc_host trend_tenths 2024 0) (point utc_host trend_tenths 2024 11)
     = Fin (- (7205759403792795 / 36028797018963968))"
    by (simp only: tenths_trend_sums)
  show "js_neg (foldl signed_step (Fin 0) (filter (in_months utc_host 2024 1 11) trend_tenths))
     = Fin (- (7205759403792794 / 36028797018963968))"
    by (simp add: trend_tenths_def mk_tx_def in_months_def year_month_february strict_eq_def
        signed_step_def parseFloat_tenths tenths_trend_sums del: js_add.simps)
qed

section \<open>The monthly series\<close>

lemma month_apply_fields [simp]:
  "m_month (month_apply tx e) = m_month e"
  "m_sortKey (month_apply tx e) = m_sortKey e"
  by (simp_all add: month_apply_def)

lemma month_apply_sums:
  "tx_type tx = INCOME \<Longrightarrow> m_income (month_apply tx e) = js_add (m_income e) (amount tx)"
  "tx_type tx = INCOME \<Longrightarrow> m_expense (month_apply tx e) = m_expense e"
  "tx_type tx = EXPENSE \<Longrightarrow> m_income (month_apply tx e) = m_income e"
  "tx_type tx = EXPENSE \<Longrightarrow> m_expense (month_apply tx e) = js_add (m_expense e) (amount tx)"
  "m_surplus (month_apply tx e) = signed_step (m_surplus e) tx"
  by (simp_all add: month_apply_def signed_step_def)

lemma month_add_distinct:
  assumes "distinct (map m_month data)"
  shows "month_add key sk tx data =
    (if key \<in> set (map m_month data)
     then map (\<lambda>e. if m_month e = key then month_apply tx e else e) data
     else data @ [month_apply tx \<lparr>m_month = key, m_income = Fin 0, m_expense = Fin 0,
                                   m_surplus = Fin 0, m_sortKey = sk\<rparr>])"
  using assms
proof (induction data)
  case Nil
  then show ?case by simp
next
  case (Cons e data)
  show ?case
  proof (cases "m_month e = key")
    case True
    then have "\<forall>e' \<in> set data. m_month e' \<noteq> key"
      using Cons.prems by (auto simp: image_iff)
    then have "map (\<lambda>e. if m_month e = key then month_apply tx e else e) data = data"
      by (induction data) simp_all
    then show ?thesis
      using True by simp
  next
    case False
    then show ?thesis
      using Cons by auto
  qed
qed

lemma monthly_fold_snoc:
  "foldl (month_step h) [] (txs @ [t]) = month_step h (foldl (month_step h) [] txs) t"
  by simp

lemma label_entry_push:
  assumes "label_entry h txs e" and "m_month e = monthKey_of h (date t)"
  shows "label_entry h (txs @ [t]) (month_apply t e)"
proof -
  define l where "l = filter (\<lambda>u. monthKey_of h (date u) = m_month e) txs"
  from assms(1)
  have ne: "l \<noteq> []"
    and k: "m_sortKey e = sortKey_of h (date (hd l))"
    and i: "m_income e = sum_amounts (filter (\<lambda>t. tx_type t = INCOME) l)"
    and x: "m_expense e = sum_amounts (filter (\<lambda>t. tx_type t = EXPENSE) l)"
    and s: "m_surplus e = foldl signed_step (Fin 0) l"
    unfolding label_entry_def l_def Let_def by blast+
  have l': "filter (\<lambda>u. monthKey_of h (date u) = m_month (month_apply t e)) (txs @ [t]) = l @ [t]"
    using assms(2) by (simp add: l_def)
  have "hd (l @ [t]) = hd l"
    using ne by (simp add: hd_append2)
  then have k': "m_sortKey (month_apply t e) = sortKey_of h (date (hd (l @ [t])))"
    using k by simp
  have i': "m_income (month_apply t e) = sum_amounts (filter (\<lambda>t. tx_type t = INCOME) (l @ [t]))"
    by (cases "tx_type t") (simp_all add: month_apply_sums i sum_amounts_snoc)
  have x': "m_expense (month_apply t e) = sum_amounts (filter (\<lambda>t. tx_type t = EXPENSE) (l @ [t]))"
    by (cases "tx_type t") (simp_all add: month_apply_sums x sum_amounts_snoc)
  have s': "m_surplus (month_apply t e) = foldl signed_step (Fin 0) (l @ [t])"
    by (simp add: month_apply_sums s)
  show ?thesis
    unfolding label_entry_def Let_def l' using k' i' x' s' by simp
qed

lemma label_entry_keep:
  assumes "label_entry h txs e" and "m_month e \<noteq> monthKey_of h (date t)"
  shows "label_entry h (txs @ [t]) e"
proof -
  have "filter (\<lambda>u. monthKey_of h (date u) = m_month e) (txs @ [t])
        = filter (\<lambda>u. monthKey_of h (date u) = m_month e) txs"
    using assms(2) by auto
  then show ?thesis
    using assms(1) by (simp add: label_entry_def)
qed

lemma label_entry_new:
  assumes "\<forall>u \<in> set txs. monthKey_of h (date u) \<noteq> monthKey_of h (date t)"
  shows "label_entry h (txs @ [t])
    (month_apply t \<lparr>m_month = monthKey_of h (date t), m_income = Fin 0, m_expense = Fin 0,
                    m_surplus = Fin 0, m_sortKey = sortKey_of h (date t)\<rparr>)"
proof -
  define e0 where "e0 = \<lparr>m_month = monthKey_of h (date t), m_income = Fin 0, m_expense = Fin 0,
                    m_surplus = Fin 0, m_sortKey = sortKey_of h (date t)\<rparr>"
  have f: "m_month e0 = monthKey_of h (date t)" "m_income e0 = Fin 0" "m_expense e0 = Fin 0"
    "m_surplus e0 = Fin 0" "m_sortKey e0 = sortKey_of h (date t)"
    by (simp_all add: e0_def)
  have "filter (\<lambda>u. monthKey_of h (date u) = monthKey_of h (date t)) txs = []"
    using assms by (simp add: filter_empty_conv)
  then have l: "filter (\<lambda>u. monthKey_of h (date u) = m_month (month_apply t e0)) (txs @ [t]) = [t]"
    by (simp add: f)
  have k: "m_sortKey (month_apply t e0) = sortKey_of h (date (hd [t]))"
    by (simp add: f)
  have i: "m_income (month_apply t e0) = sum_amounts (filter (\<lambda>t. tx_type t = INCOME) [t])"
    by (cases "tx_type t") (simp_all add: month_apply_sums f sum_amounts_def del: js_add.simps)
  have x: "m_expense (month_apply t e0) = sum_amounts (filter (\<lambda>t. tx_type t = EXPENSE) [t])"
    by (cases "tx_type t") (simp_all add: month_apply_sums f sum_amounts_def del: js_add.simps)
  have s: "m_surplus (month_apply t e0) = foldl signed_step (Fin 0) [t]"
    by (simp add: month_apply_sums f)
  have "label_entry h (txs @ [t]) (month_apply t e0)"
    unfolding label_entry_def Let_def l using k i x s by simp
  then show ?thesis
    by (simp only: e0_def)
qed

lemma monthly_invariant:
  "map m_month (foldl (month_step h) [] txs) = first_occ (map (\<lambda>t. monthKey_of h (date t)) txs)
   \<and> (\<forall>e \<in> set (foldl (month_step h) [] txs). label_entry h txs e)"
proof (induction txs rule: rev_induct)
  case Nil
  then show ?case by (simp add: first_occ_def)
next
  case (snoc t txs)
  define D where "D = foldl (month_step h) [] txs"
  define key where "key = monthKey_of h (date t)"
  have keys: "map m_month D = first_occ (map (\<lambda>t. monthKey_of h (date t)) txs)"
    and inv: "\<And>e. e \<in> set D \<Longrightarrow> label_entry h txs e"
    using snoc.IH by (simp_all add: D_def)
  have dist: "distinct (map m_month D)"
    by (simp add: keys distinct_first_occ)
  have step: "foldl (month_step h) [] (txs @ [t]) =
    (if key \<in> set (map m_month D)
     then map (\<lambda>e. if m_month e = key then month_apply t e else e) D
     else D @ [month_apply t \<lparr>m_month = key, m_income = Fin 0, m_expense = Fin 0,
                                m_surplus = Fin 0, m_sortKey = sortKey_of h (date t)\<rparr>])"
    unfolding monthly_fold_snoc D_def [symmetric] month_step_def key_def [symmetric]
    by (rule month_add_distinct [OF dist])
  show ?case
  proof (cases "key \<in> set (map m_month D)")
    case True
    define f where "f = (\<lambda>e. if m_month e = key then month_apply t e else e)"
    have "m_month (f e) = m_month e" for e
      by (simp add: f_def)
    then have m: "map m_month (map f D) = map m_month D"
      by (simp add: comp_def)
    have fo: "first_occ (map (\<lambda>t. monthKey_of h (date t)) (txs @ [t])) = map m_month D"
      using True by (simp add: first_occ_snoc keys [symmetric] key_def)
    have "label_entry h (txs @ [t]) (f e)" if "e \<in> set D" for e
      using inv [OF that] label_entry_push [of h txs e t] label_entry_keep [of h txs e t]
      by (simp add: key_def f_def)
    then have le: "\<forall>e \<in> set (map f D). label_entry h (txs @ [t]) e"
      by auto
    have "foldl (month_step h) [] (txs @ [t]) = map f D"
      unfolding step f_def using True by simp
    then show ?thesis
      using m fo le by simp
  next
    case False
    have "set (map m_month D) = (\<lambda>t. monthKey_of h (date t)) ` set txs"
      by (simp add: keys set_first_occ)
    then have "key \<notin> (\<lambda>t. monthKey_of h (date t)) ` set txs"
      using False by simp
    then have none: "\<forall>u \<in> set txs. monthKey_of h (date u) \<noteq> monthKey_of h (date t)"
      unfolding key_def by (metis imageI)
    have new: "label_entry h (txs @ [t])
        (month_apply t \<lparr>m_month = key, m_income = Fin 0, m_expense = Fin 0,
                        m_surplus = Fin 0, m_sortKey = sortKey_of h (date t)\<rparr>)"
      unfolding key_def by (rule label_entry_new [OF none])
    have old: "label_entry h (txs @ [t]) e" if "e \<in> set D" for e
    proof -
      have "m_month e \<in> set (map m_month D)" using that by simp
      then have "m_month e \<noteq> key" using False by metis
      then show ?thesis
        using inv [OF that] label_entry_keep [of h txs e t] by (simp add: key_def)
    qed
    have "first_occ (map (\<lambda>t. monthKey_of h (date t)) (txs @ [t])) = map m_month D @ [key]"
      using False by (simp add: first_occ_snoc keys [symmetric] key_def)
    then show ?thesis
      unfolding step using False new old by auto
  qed
qed

lemma monthKey_of_month_key:
  assumes "month_key h a = month_key h b"
  shows "monthKey_of h a = monthKey_of h b" and "sortKey_of h a = sortKey_of h b"
  using assms
  by (cases "parse_time h a"; cases "parse_time h b";
      simp add: month_key_def getFullYear_def getMonth_def monthKey_of_def sortKey_of_def)+

lemma separate_monthsD:
  assumes "separate_months h txs" and "a \<in> set txs" and "b \<in> set txs"
  shows "monthKey_of h (date a) = monthKey_of h (date b)
           \<longleftrightarrow> month_key h (date a) = month_key h (date b)"
    and "sortKey_of h (date a) = sortKey_of h (date b)
           \<longleftrightarrow> month_key h (date a) = month_key h (date b)"
proof -
  have "\<forall>a \<in> set txs. \<forall>b \<in> set txs.
        (monthKey_of h (date a) = monthKey_of h (date b)
         \<or> sortKey_of h (date a) = sortKey_of h (date b))
        \<longrightarrow> month_key h (date a) = month_key h (date b)"
    using assms(1) unfolding separate_months_def list_all_iff .
  then have imp: "(monthKey_of h (date a) = monthKey_of h (date b)
         \<or> sortKey_of h (date a) = sortKey_of h (date b))
        \<longrightarrow> month_key h (date a) = month_key h (date b)"
    using assms(2,3) by blast
  show "monthKey_of h (date a) = monthKey_of h (date b)
           \<longleftrightarrow> month_key h (date a) = month_key h (date b)"
    using imp monthKey_of_month_key(1) [of h "date a" "date b"] by blast
  show "sortKey_of h (date a) = sortKey_of h (date b)
           \<longleftrightarrow> month_key h (date a) = month_key h (date b)"
    using imp monthKey_of_month_key(2) [of h "date a" "date b"] by blast
qed

lemma label_entry_first:
  assumes "label_entry h txs e"
  obtains t0 where "t0 \<in> set txs" and "monthKey_of h (date t0) = m_month e"
    and "m_sortKey e = sortKey_of h (date t0)"
proof -
  define l where "l = filter (\<lambda>t. monthKey_of h (date t) = m_month e) txs"
  have ne: "l \<noteq> []" and k: "m_sortKey e = sortKey_of h (date (hd l))"
    using assms unfolding label_entry_def l_def Let_def by blast+
  have "hd l \<in> set l"
    using ne by simp
  then have "hd l \<in> set txs" "monthKey_of h (date (hd l)) = m_month e"
    by (simp_all add: l_def)
  then show thesis
    using k that by blast
qed

lemma label_entry_month:
  assumes "separate_months h txs" and "label_entry h txs e"
  shows "entry_of_month h txs e"
proof -
  define l where "l = filter (\<lambda>t. monthKey_of h (date t) = m_month e) txs"
  from assms(2)
  have i: "m_income e = sum_amounts (filter (\<lambda>t. tx_type t = INCOME) l)"
    and x: "m_expense e = sum_amounts (filter (\<lambda>t. tx_type t = EXPENSE) l)"
    and s: "m_surplus e = foldl signed_step (Fin 0) l"
    unfolding label_entry_def l_def Let_def by blast+
  obtain t0 where t0: "t0 \<in> set txs" and lab: "monthKey_of h (date t0) = m_month e"
    and k: "m_sortKey e = sortKey_of h (date t0)"
    using assms(2) by (rule label_entry_first)
  have same: "monthKey_of h (date t) = m_month e
                \<longleftrightarrow> month_key h (date t) = month_key h (date t0)"
    if "t \<in> set txs" for t
    using separate_monthsD(1) [OF assms(1) that t0] lab by simp
  have l: "l = filter (\<lambda>t. month_key h (date t) = month_key h (date t0)) txs"
    unfolding l_def using same by (intro filter_cong) simp_all
  have li: "filter (\<lambda>t. tx_type t = INCOME) l
      = filter (\<lambda>t. tx_type t = INCOME \<and> month_key h (date t) = month_key h (date t0)) txs"
    unfolding l by (simp add: conj_commute)
  have lx: "filter (\<lambda>t. tx_type t = EXPENSE) l
      = filter (\<lambda>t. tx_type t = EXPENSE \<and> month_key h (date t) = month_key h (date t0)) txs"
    unfolding l by (simp add: conj_commute)
  have "m_month e = monthKey_of h (date t0)
        \<and> m_sortKey e = sortKey_of h (date t0)
        \<and> m_income e = sum_amounts
              (filter (\<lambda>t. tx_type t = INCOME \<and> month_key h (date t) = month_key h (date t0)) txs)
        \<and> m_expense e = sum_amounts
              (filter (\<lambda>t. tx_type t = EXPENSE \<and> month_key h (date t) = month_key h (date t0)) txs)
        \<and> m_surplus e = foldl signed_step (Fin 0)
              (filter (\<lambda>t. month_key h (date t) = month_key h (date t0)) txs)"
    using lab k i x s by (simp only: li lx l [symmetric] simp_thms)
  then show ?thesis
    unfolding entry_of_month_def list_ex_iff using t0 by blast
qed

lemma exact_amounts_filter:
  assumes "exact_amounts txs"
  shows "exact_amounts (filter P txs)"
proof -
  have w: "list_all (\<lambda>t. whole (amount t)) (filter P txs)"
    using exact_total(1) [OF assms] by (rule list_all_filter)
  have "sum_list (map amount_int (filter P txs)) \<le> sum_list (map amount_int txs)"
    using exact_total(1) [OF assms] by (rule amount_int_filter_le)
  then have "sum_list (map amount_int (filter P txs)) \<le> 2 ^ 53"
    using exact_total(2) [OF assms] by simp
  then have "(of_int (sum_list (map amount_int (filter P txs))) :: rat) \<le> of_int (2 ^ 53)"
    by (simp only: of_int_le_iff)
  then show ?thesis
    using w by (simp add: exact_amounts_def val_sum [OF w])
qed

lemma label_entry_surplus:
  assumes "exact_amounts txs" and "label_entry h txs e"
  shows "m_surplus e = js_sub (m_income e) (m_expense e)"
proof -
  define l where "l = filter (\<lambda>t. monthKey_of h (date t) = m_month e) txs"
  from assms(2)
  have i: "m_income e = sum_amounts (filter (\<lambda>t. tx_type t = INCOME) l)"
    and x: "m_expense e = sum_amounts (filter (\<lambda>t. tx_type t = EXPENSE) l)"
    and s: "m_surplus e = foldl signed_step (Fin 0) l"
    unfolding label_entry_def l_def Let_def by blast+
  have "exact_amounts l"
    unfolding l_def using assms(1) by (rule exact_amounts_filter)
  from totals_exact [OF this]
  have "totalIncome l = sum_amounts (filter (\<lambda>t. tx_type t = INCOME) l)"
    and "totalExpense l = sum_amounts (filter (\<lambda>t. tx_type t = EXPENSE) l)"
    and "totalBalance l = foldl signed_step (Fin 0) l"
    and "totalBalance l = js_sub (totalIncome l) (totalExpense l)"
    by blast+
  then show ?thesis
    using i x s by simp
qed

lemma sorted_asc_by_value:
  fixes v :: "'a \<Rightarrow> number"
  assumes "\<forall>e \<in> set xs. v e \<noteq> NaN"
  shows "sorted_wrt (\<lambda>a b. js_le (v a) (v b)) (js_sort (\<lambda>a b. js_sub (v a) (v b)) xs)"
proof -
  define rk where "rk x = (case x of NegInf \<Rightarrow> - 1 | PosInf \<Rightarrow> 1 | _ \<Rightarrow> (0::int))" for x :: number
  define le where "le a b \<longleftrightarrow> rk (v a) < rk (v b) \<or> (rk (v a) = rk (v b) \<and> val (v a) \<le> val (v b))"
    for a b
  have lt: "js_lt x y \<longleftrightarrow> rk x < rk y \<or> (rk x = rk y \<and> val x < val y)"
    if "x \<noteq> NaN" "y \<noteq> NaN" for x y
    using js_lt_rank [OF that] by (simp add: rk_def)
  have "sorted_wrt le (js_sort (\<lambda>a b. js_sub (v a) (v b)) xs)"
  proof (rule sorted_wrt_js_sort)
    fix x y assume "x \<in> set xs" "y \<in> set xs"
    then have "v x \<noteq> NaN" "v y \<noteq> NaN"
      using assms by simp_all
    then show "js_gt (js_sub (v x) (v y)) (Fin 0) \<longleftrightarrow> \<not> le x y"
      by (auto simp: js_sub_positive_general lt le_def)
  next
    fix a b c assume "le a b" "le b c"
    then show "le a c"
      unfolding le_def by linarith
  next
    fix a b show "le a b \<or> le b a"
      unfolding le_def by linarith
  qed
  moreover have "js_le (v a) (v b)" if "le a b" "a \<in> set xs" "b \<in> set xs" for a b
  proof -
    have n: "v a \<noteq> NaN" "v b \<noteq> NaN"
      using assms that by simp_all
    have "\<not> js_lt (v b) (v a)"
      using that(1) by (simp add: lt [OF n(2) n(1)] le_def) linarith
    then show ?thesis
      using n by (cases "v a"; cases "v b") (auto simp: js_le_def)
  qed
  ultimately show ?thesis
    by (rule sorted_wrt_mono_rel [rotated]) (simp_all add: set_js_sort)
qed

lemma sorted_wrt_distinct:
  assumes "sorted_wrt P xs" and "distinct (map f xs)"
  shows "sorted_wrt (\<lambda>a b. P a b \<and> f a \<noteq> f b) xs"
  using assms by (induction xs) auto

lemma monthly_entries:
  shows "distinct (map m_month (foldl (month_step h) [] txs))"
    and "set (map m_month (foldl (month_step h) [] txs)) = (\<lambda>t. monthKey_of h (date t)) ` set txs"
    and "e \<in> set (foldl (month_step h) [] txs) \<Longrightarrow> label_entry h txs e"
proof -
  have m: "map m_month (foldl (month_step h) [] txs)
           = first_occ (map (\<lambda>t. monthKey_of h (date t)) txs)"
    using monthly_invariant [of h txs] by blast
  show "distinct (map m_month (foldl (month_step h) [] txs))"
    unfolding m by (rule distinct_first_occ)
  show "set (map m_month (foldl (month_step h) [] txs)) = (\<lambda>t. monthKey_of h (date t)) ` set txs"
    unfolding m by (simp add: set_first_occ)
  show "e \<in> set (foldl (month_step h) [] txs) \<Longrightarrow> label_entry h txs e"
    using monthly_invariant [of h txs] by blast
qed

lemma sortKey_not_NaN:
  assumes "valid_dates h txs" and "label_entry h txs e"
  shows "m_sortKey e \<noteq> NaN"
proof -
  obtain t0 where t0: "t0 \<in> set txs" and k: "m_sortKey e = sortKey_of h (date t0)"
    using assms(2) by (rule label_entry_first)
  have "parse_time h (date t0) \<noteq> None"
    using assms(1) t0 by (simp add: valid_dates_def list_all_iff)
  then show ?thesis
    unfolding k by (auto simp: sortKey_of_def)
qed

lemma label_entry_same_key:
  assumes "separate_months h txs" and "label_entry h txs a" and "label_entry h txs b"
    and "m_sortKey a = m_sortKey b"
  shows "m_month a = m_month b"
proof -
  obtain ta where ta: "ta \<in> set txs" "monthKey_of h (date ta) = m_month a"
      "m_sortKey a = sortKey_of h (date ta)"
    using assms(2) by (rule label_entry_first)
  obtain tb where tb: "tb \<in> set txs" "monthKey_of h (date tb) = m_month b"
      "m_sortKey b = sortKey_of h (date tb)"
    using assms(3) by (rule label_entry_first)
  have "sortKey_of h (date ta) = sortKey_of h (date tb)"
    using assms(4) ta(3) tb(3) by simp
  then have "month_key h (date ta) = month_key h (date tb)"
    using separate_monthsD(2) [OF assms(1) ta(1) tb(1)] by simp
  then have "monthKey_of h (date ta) = monthKey_of h (date tb)"
    by (rule monthKey_of_month_key(1))
  then show ?thesis
    using ta(2) tb(2) by simp
qed

lemma monthly_sortKeys_distinct:
  assumes "separate_months h txs"
  shows "distinct (map m_sortKey (foldl (month_step h) [] txs))"
proof -
  define F where "F = foldl (month_step h) [] txs"
  have d: "distinct (map m_month F)"
    unfolding F_def by (rule monthly_entries(1))
  then have dF: "distinct F" and inj: "inj_on m_month (set F)"
    by (simp_all add: distinct_map)
  have "inj_on m_sortKey (set F)"
  proof (rule inj_onI)
    fix a b assume a: "a \<in> set F" and b: "b \<in> set F" and k: "m_sortKey a = m_sortKey b"
    have "label_entry h txs a" "label_entry h txs b"
      using a b unfolding F_def by (simp_all add: monthly_entries(3))
    then have "m_month a = m_month b"
      using assms k by (intro label_entry_same_key [of h txs a b])
    then show "a = b"
      using inj a b by (simp add: inj_on_def)
  qed
  then show ?thesis
    unfolding F_def [symmetric] using dF by (simp add: distinct_map)
qed

lemma js_lt_asym: "js_lt x y \<Longrightarrow> \<not> js_lt y x"
  by (cases x; cases y) simp_all

lemma monthlyData_strictly_ascending:
  assumes "valid_dates h txs" and "separate_months h txs"
  shows "sorted_wrt (\<lambda>a b. js_lt (m_sortKey a) (m_sortKey b)) (monthlyData h txs)"
proof -
  define F where "F = foldl (month_step h) [] txs"
  have "m_sortKey e \<noteq> NaN" if "e \<in> set F" for e
    using assms(1) monthly_entries(3) [of e h txs] that unfolding F_def
    by (intro sortKey_not_NaN [of h txs e])
  then have n: "\<forall>e \<in> set F. m_sortKey e \<noteq> NaN"
    by blast
  have s: "sorted_wrt (\<lambda>a b. js_le (m_sortKey a) (m_sortKey b)) (monthlyData h txs)"
    unfolding monthlyData_def F_def [symmetric] using n by (rule sorted_asc_by_value)
  have "mset (map m_sortKey (monthlyData h txs)) = mset (map m_sortKey F)"
    by (simp add: monthlyData_def F_def mset_js_sort)
  moreover have "distinct (map m_sortKey F)"
    unfolding F_def using assms(2) by (rule monthly_sortKeys_distinct)
  ultimately have d: "distinct (map m_sortKey (monthlyData h txs))"
    by (metis mset_eq_imp_distinct_iff)
  have "sorted_wrt (\<lambda>a b. js_le (m_sortKey a) (m_sortKey b) \<and> m_sortKey a \<noteq> m_sortKey b)
          (monthlyData h txs)"
    using s d by (rule sorted_wrt_distinct)
  then show ?thesis
    by (rule sorted_wrt_mono_rel [rotated]) (auto simp: js_le_def)
qed

lemma sorted_wrt_asym_unique:
  assumes "sorted_wrt R xs" and "sorted_wrt R ys" and "set xs = set ys"
    and asym: "\<And>a b. R a b \<Longrightarrow> \<not> R b a"
  shows "xs = ys"
  using assms(1-3)
proof (induction xs arbitrary: ys)
  case Nil
  then show ?case by simp
next
  case (Cons x xs)
  then obtain y ys' where ys: "ys = y # ys'"
    by (cases ys) auto
  have sx: "\<forall>a \<in> set xs. R x a" and sy: "\<forall>a \<in> set ys'. R y a"
    using Cons.prems ys by simp_all
  have irrefl: "\<not> R a a" for a
    using asym [of a a] by blast
  have xy: "x = y"
  proof (rule ccontr)
    assume ne: "x \<noteq> y"
    have "x \<in> set ys'" "y \<in> set xs"
      using Cons.prems(3) ys ne by auto
    then have "R y x" "R x y"
      using sx sy by simp_all
    then show False
      using asym by blast
  qed
  have "x \<notin> set xs" "y \<notin> set ys'"
    using sx sy irrefl by blast+
  then have "set xs = set ys'"
    using Cons.prems(3) ys xy by auto
  moreover have "sorted_wrt R xs" "sorted_wrt R ys'"
    using Cons.prems ys by simp_all
  ultimately have "xs = ys'"
    by (intro Cons.IH)
  then show ?case
    using xy ys by simp
qed

lemma exact_amounts_mset:
  assumes "mset txs' = mset txs" and "exact_amounts txs"
  shows "exact_amounts txs'"
proof -
  have s: "set txs' = set txs"
    using assms(1) by (rule mset_eq_setD)
  have "mset (map (\<lambda>t. val (amount t)) txs') = mset (map (\<lambda>t. val (amount t)) txs)"
    using assms(1) by simp
  then have "sum_list (map (\<lambda>t. val (amount t)) txs') = sum_list (map (\<lambda>t. val (amount t)) txs)"
    by (metis sum_mset_sum_list)
  then show ?thesis
    using assms(2) s by (simp add: exact_amounts_def list_all_iff)
qed

lemma hypotheses_set:
  assumes "set txs' = set txs"
  shows "valid_dates h txs' = valid_dates h txs"
    and "separate_months h txs' = separate_months h txs"
  using assms by (simp_all add: valid_dates_def separate_months_def list_all_iff)

lemma label_entry_unique:
  assumes ex: "exact_amounts txs" and sep: "separate_months h txs"
    and m: "mset txs' = mset txs"
    and a: "label_entry h txs a" and b: "label_entry h txs' b"
    and lab: "m_month a = m_month b"
  shows "a = b"
proof -
  define l where "l = filter (\<lambda>t. monthKey_of h (date t) = m_month a) txs"
  define l' where "l' = filter (\<lambda>t. monthKey_of h (date t) = m_month a) txs'"
  have s: "set txs' = set txs"
    using m by (rule mset_eq_setD)
  have ml: "mset l' = mset l"
    unfolding l_def l'_def mset_filter m ..
  from a
  have ai: "m_income a = sum_amounts (filter (\<lambda>t. tx_type t = INCOME) l)"
    and ax: "m_expense a = sum_amounts (filter (\<lambda>t. tx_type t = EXPENSE) l)"
    and as: "m_surplus a = foldl signed_step (Fin 0) l"
    unfolding label_entry_def l_def Let_def by blast+
  from b
  have bi: "m_income b = sum_amounts (filter (\<lambda>t. tx_type t = INCOME) l')"
    and bx: "m_expense b = sum_amounts (filter (\<lambda>t. tx_type t = EXPENSE) l')"
    and bs: "m_surplus b = foldl signed_step (Fin 0) l'"
    unfolding label_entry_def l'_def lab Let_def by blast+
  have el: "exact_amounts l"
    unfolding l_def using ex by (rule exact_amounts_filter)
  have el': "exact_amounts l'"
    using ml el by (rule exact_amounts_mset)
  have sums: "sum_list (map (\<lambda>t. val (amount t)) (filter P l'))
              = sum_list (map (\<lambda>t. val (amount t)) (filter P l))" for P
  proof -
    have "mset (map (\<lambda>t. val (amount t)) (filter P l'))
          = mset (map (\<lambda>t. val (amount t)) (filter P l))"
      by (simp add: ml)
    then show ?thesis
      by (metis sum_mset_sum_list)
  qed
  have sum_of: "sum_amounts (filter (\<lambda>t. tx_type t = INCOME) k)
        = Fin (sum_list (map (\<lambda>t. val (amount t)) (filter (\<lambda>t. tx_type t = INCOME) k)))
      \<and> sum_amounts (filter (\<lambda>t. tx_type t = EXPENSE) k)
        = Fin (sum_list (map (\<lambda>t. val (amount t)) (filter (\<lambda>t. tx_type t = EXPENSE) k)))
      \<and> foldl signed_step (Fin 0) k
        = js_sub (sum_amounts (filter (\<lambda>t. tx_type t = INCOME) k))
                 (sum_amounts (filter (\<lambda>t. tx_type t = EXPENSE) k))"
    if "exact_amounts k" for k
    using totals_exact [OF that] by metis
  have income: "m_income a = m_income b"
    unfolding ai bi using sum_of [OF el] sum_of [OF el'] sums [of "\<lambda>t. tx_type t = INCOME"]
    by simp
  have expense: "m_expense a = m_expense b"
    unfolding ax bx using sum_of [OF el] sum_of [OF el'] sums [of "\<lambda>t. tx_type t = EXPENSE"]
    by simp
  have "m_surplus a = js_sub (m_income a) (m_expense a)"
    unfolding as ai ax using sum_of [OF el] by blast
  moreover have "m_surplus b = js_sub (m_income b) (m_expense b)"
    unfolding bs bi bx using sum_of [OF el'] by blast
  ultimately have surplus: "m_surplus a = m_surplus b"
    using income expense by simp
  obtain ta where ta: "ta \<in> set txs" "monthKey_of h (date ta) = m_month a"
      "m_sortKey a = sortKey_of h (date ta)"
    using a by (rule label_entry_first)
  obtain tb where tb: "tb \<in> set txs'" "monthKey_of h (date tb) = m_month b"
      "m_sortKey b = sortKey_of h (date tb)"
    using b by (rule label_entry_first)
  have "tb \<in> set txs"
    using tb(1) s by simp
  moreover have "monthKey_of h (date ta) = monthKey_of h (date tb)"
    using ta(2) tb(2) lab by simp
  ultimately have "month_key h (date ta) = month_key h (date tb)"
    using separate_monthsD(1) [OF sep ta(1), of tb] by simp
  then have "sortKey_of h (date ta) = sortKey_of h (date tb)"
    by (rule monthKey_of_month_key(2))
  then have key: "m_sortKey a = m_sortKey b"
    using ta(3) tb(3) by simp
  show ?thesis
    using lab income expense surplus key by (intro MonthEntry.equality) simp_all
qed

lemma monthly_entries_subset:
  assumes ex: "exact_amounts txs" and sep: "separate_months h txs"
    and m: "mset txs' = mset txs"
  shows "set (foldl (month_step h) [] txs) \<subseteq> set (foldl (month_step h) [] txs')"
proof
  fix e assume e: "e \<in> set (foldl (month_step h) [] txs)"
  have s: "set txs' = set txs"
    using m by (rule mset_eq_setD)
  have "m_month e \<in> set (map m_month (foldl (month_step h) [] txs))"
    using e by simp
  then have "m_month e \<in> set (map m_month (foldl (month_step h) [] txs'))"
    unfolding monthly_entries(2) s .
  then obtain e' where e': "e' \<in> set (foldl (month_step h) [] txs')" "m_month e = m_month e'"
    by auto
  have "e = e'"
    using ex sep m monthly_entries(3) [OF e] monthly_entries(3) [OF e'(1)] e'(2)
    by (rule label_entry_unique)
  then show "e \<in> set (foldl (month_step h) [] txs')"
    using e'(1) by simp
qed

lemma monthlyData_mset:
  assumes v: "valid_dates h txs" and sep: "separate_months h txs" and ex: "exact_amounts txs"
    and m: "mset txs' = mset txs"
  shows "monthlyData h txs' = monthlyData h txs"
proof -
  have s: "set txs' = set txs"
    using m by (rule mset_eq_setD)
  have v': "valid_dates h txs'" and sep': "separate_months h txs'"
    using v sep by (simp_all add: hypotheses_set [OF s])
  have ex': "exact_amounts txs'"
    using m ex by (rule exact_amounts_mset)
  have "set (foldl (month_step h) [] txs') = set (foldl (month_step h) [] txs)"
    using monthly_entries_subset [OF ex sep m] monthly_entries_subset [OF ex' sep' m [symmetric]]
    by blast
  then have "set (monthlyData h txs') = set (monthlyData h txs)"
    by (simp add: monthlyData_def set_js_sort)
  with monthlyData_strictly_ascending [OF v' sep'] monthlyData_strictly_ascending [OF v sep]
  show ?thesis
    by (rule sorted_wrt_asym_unique) (rule js_lt_asym)
qed

lemma monthly_keys_set:
  assumes "separate_months h txs"
  shows "set (map (\<lambda>e. (m_month e, m_sortKey e)) (foldl (month_step h) [] txs))
         = (\<lambda>t. (monthKey_of h (date t), sortKey_of h (date t))) ` set txs"
proof (intro set_eqI iffI)
  fix p assume "p \<in> set (map (\<lambda>e. (m_month e, m_sortKey e)) (foldl (month_step h) [] txs))"
  then obtain e where e: "e \<in> set (foldl (month_step h) [] txs)"
      and p: "p = (m_month e, m_sortKey e)"
    by auto
  have "label_entry h txs e"
    using e by (rule monthly_entries(3))
  then obtain t0 where "t0 \<in> set txs" "monthKey_of h (date t0) = m_month e"
      "m_sortKey e = sortKey_of h (date t0)"
    by (rule label_entry_first)
  then show "p \<in> (\<lambda>t. (monthKey_of h (date t), sortKey_of h (date t))) ` set txs"
    unfolding p by (intro image_eqI [of _ _ t0]) simp_all
next
  fix p assume "p \<in> (\<lambda>t. (monthKey_of h (date t), sortKey_of h (date t))) ` set txs"
  then obtain t where t: "t \<in> set txs"
      and p: "p = (monthKey_of h (date t), sortKey_of h (date t))"
    by auto
  have "monthKey_of h (date t) \<in> set (map m_month (foldl (month_step h) [] txs))"
    unfolding monthly_entries(2) using t by simp
  then obtain e where e: "e \<in> set (foldl (month_step h) [] txs)"
      and m: "m_month e = monthKey_of h (date t)"
    by auto
  have "label_entry h txs e"
    using e by (rule monthly_entries(3))
  then obtain t0 where t0: "t0 \<in> set txs" "monthKey_of h (date t0) = m_month e"
      "m_sortKey e = sortKey_of h (date t0)"
    by (rule label_entry_first)
  have "month_key h (date t0) = month_key h (date t)"
    using separate_monthsD(1) [OF assms t0(1) t] t0(2) m by simp
  then have "sortKey_of h (date t0) = sortKey_of h (date t)"
    by (rule monthKey_of_month_key(2))
  then have "p = (m_month e, m_sortKey e)"
    unfolding p using m t0(3) by simp
  then show "p \<in> set (map (\<lambda>e. (m_month e, m_sortKey e)) (foldl (month_step h) [] txs))"
    using e by auto
qed

lemma monthlyData_keys_mset:
  assumes v: "valid_dates h txs" and sep: "separate_months h txs"
    and m: "mset txs' = mset txs"
  shows "map (\<lambda>e. (m_month e, m_sortKey e)) (monthlyData h txs')
         = map (\<lambda>e. (m_month e, m_sortKey e)) (monthlyData h txs)"
proof -
  have s: "set txs' = set txs"
    using m by (rule mset_eq_setD)
  have v': "valid_dates h txs'" and sep': "separate_months h txs'"
    using v sep by (simp_all add: hypotheses_set [OF s])
  have keys: "set (map (\<lambda>e. (m_month e, m_sortKey e)) (monthlyData h l))
              = (\<lambda>t. (monthKey_of h (date t), sortKey_of h (date t))) ` set l"
    if "separate_months h l" for l
    using monthly_keys_set [OF that] by (simp add: monthlyData_def set_js_sort)
  have asc: "sorted_wrt (\<lambda>p q. js_lt (snd p) (snd q))
               (map (\<lambda>e. (m_month e, m_sortKey e)) (monthlyData h l))"
    if "valid_dates h l" "separate_months h l" for l
    using monthlyData_strictly_ascending [OF that] by (simp add: sorted_wrt_map)
  show ?thesis
  proof (rule sorted_wrt_asym_unique)
    show "sorted_wrt (\<lambda>p q. js_lt (snd p) (snd q))
            (map (\<lambda>e. (m_month e, m_sortKey e)) (monthlyData h txs'))"
      using v' sep' by (rule asc)
    show "sorted_wrt (\<lambda>p q. js_lt (snd p) (snd q))
            (map (\<lambda>e. (m_month e, m_sortKey e)) (monthlyData h txs))"
      using v sep by (rule asc)
    show "set (map (\<lambda>e. (m_month e, m_sortKey e)) (monthlyData h txs'))
          = set (map (\<lambda>e. (m_month e, m_sortKey e)) (monthlyData h txs))"
      unfolding keys [OF sep] keys [OF sep'] s ..
    show "js_lt (snd a) (snd b) \<Longrightarrow> \<not> js_lt (snd b) (snd a)" for a b :: "string \<times> number"
      by (rule js_lt_asym)
  qed
qed

lemma label_entry_surplus_exact:
  assumes "label_entry h txs e"
    and "exact_sums (filter (\<lambda>t. monthKey_of h (date t) = m_month e) txs)"
  shows "m_surplus e = js_sub (m_income e) (m_expense e)"
proof -
  define l where "l = filter (\<lambda>t. monthKey_of h (date t) = m_month e) txs"
  from assms(1)
  have i: "m_income e = sum_amounts (filter (\<lambda>t. tx_type t = INCOME) l)"
    and x: "m_expense e = sum_amounts (filter (\<lambda>t. tx_type t = EXPENSE) l)"
    and s: "m_surplus e = foldl signed_step (Fin 0) l"
    unfolding label_entry_def l_def Let_def by blast+
  have "exact_sums l"
    using assms(2) by (simp only: l_def)
  then show ?thesis
    unfolding i x s by (rule exact_sums_balance)
qed

subsection \<open>The series of the sample lists\<close>

lemma parse_months:
  "utc_parse ''2024-01-01T10:00'' = Some 1704103200000"
  "utc_parse ''2024-01-01T11:00'' = Some 1704106800000"
  "utc_parse ''1923-10-05T08:00'' = Some (- 1459267200000)"
  "utc_parse ''2023-10-05T08:00'' = Some 1696492800000"
  by (simp_all add: utc_parse_eval)

lemma fields_months:
  "utc_year 1704103200000 = 2024" "utc_month 1704103200000 = 0"
  "utc_year 1704106800000 = 2024" "utc_month 1704106800000 = 0"
  "utc_year (- 1459267200000) = 1923" "utc_month (- 1459267200000) = 9"
  "utc_year 1696492800000 = 2023" "utc_month 1696492800000 = 9"
  by (simp_all add: utc_fields_eval)

lemma month_starts_samples:
  "utc_month_start 2024 0 = 1704067200000" "utc_month_start 2023 11 = 1701388800000"
  "utc_month_start 1923 9 = - 1459641600000" "utc_month_start 2023 9 = 1696118400000"
  by (simp_all add: utc_month_start_def days_from_civil_def ms_per_day_def)

lemma monthKey_samples:
  "monthKey_of utc_host ''2024-01-01T09:00'' = ''Jan 24''"
  "monthKey_of utc_host ''2024-01-01T10:00'' = ''Jan 24''"
  "monthKey_of utc_host ''2024-01-01T11:00'' = ''Jan 24''"
  "monthKey_of utc_host ''2024-01-01T18:00'' = ''Jan 24''"
  "monthKey_of utc_host ''2023-12-15T10:00'' = ''Dec 23''"
  "monthKey_of utc_host ''1923-10-05T08:00'' = ''Oct 23''"
  "monthKey_of utc_host ''2023-10-05T08:00'' = ''Oct 23''"
  by (simp_all add: monthKey_of_def parse_2024_01_01_0900 parse_samples parse_trend parse_months
      fields_2024_01_01_0900 fields_samples fields_trend fields_months
      month_abbr_def two_digits_def digit_char_def)

lemma sortKey_samples:
  "sortKey_of utc_host ''2024-01-01T09:00'' = Fin 1704067200000"
  "sortKey_of utc_host ''2024-01-01T10:00'' = Fin 1704067200000"
  "sortKey_of utc_host ''2024-01-01T11:00'' = Fin 1704067200000"
  "sortKey_of utc_host ''2024-01-01T18:00'' = Fin 1704067200000"
  "sortKey_of utc_host ''2023-12-15T10:00'' = Fin 1701388800000"
  "sortKey_of utc_host ''1923-10-05T08:00'' = Fin (- 1459641600000)"
  "sortKey_of utc_host ''2023-10-05T08:00'' = Fin 1696118400000"
  by (simp_all add: sortKey_of_def parse_2024_01_01_0900 parse_samples parse_trend parse_months
      fields_2024_01_01_0900 fields_samples fields_trend fields_months month_starts_samples)

lemma month_key_samples:
  "month_key utc_host ''2024-01-01T09:00'' = (Some 2024, Some 0)"
  "month_key utc_host ''2024-01-01T18:00'' = (Some 2024, Some 0)"
  "month_key utc_host ''2023-12-15T10:00'' = (Some 2023, Some 11)"
  "month_key utc_host ''1923-10-05T08:00'' = (Some 1923, Some 9)"
  "month_key utc_host ''2023-10-05T08:00'' = (Some 2023, Some 9)"
  by (simp_all add: month_key_def getFullYear_def getMonth_def parse_2024_01_01_0900
      parse_samples parse_trend parse_months fields_2024_01_01_0900 fields_samples fields_trend
      fields_months)

lemma sample_fields_century [simp]:
  "amount tx9 = Fin 5" "date tx9 = ''1923-10-05T08:00''" "tx_type tx9 = INCOME"
  "amount tx10 = Fin 3" "date tx10 = ''2023-10-05T08:00''" "tx_type tx10 = EXPENSE"
  by (simp_all add: tx9_def tx10_def mk_tx_def)

lemma rnd_months:
  "rnd 1000 = Fin 1000" "rnd (- 40) = Fin (- 40)" "rnd 2460 = Fin 2460"
  "rnd 5 = Fin 5" "rnd 3 = Fin 3" "rnd 2 = Fin 2" "rnd (- 3) = Fin (- 3)"
  by (simp_all add: rnd_eval)

lemma monthly_fold_months:
  "foldl (month_step utc_host) [] [tx1, tx8, tx2] =
     [\<lparr>m_month = ''Jan 24'', m_income = Fin 2500, m_expense = Fin 40,
        m_surplus = Fin 2460, m_sortKey = Fin 1704067200000\<rparr>,
      \<lparr>m_month = ''Dec 23'', m_income = Fin 1000, m_expense = Fin 0,
        m_surplus = Fin 1000, m_sortKey = Fin 1701388800000\<rparr>]"
  by (simp add: month_step_def monthKey_samples sortKey_samples month_apply_def js_sub_def
      rnd_small rnd_months)

lemma monthlyData_months:
  "monthlyData utc_host months_txs =
     [\<lparr>m_month = ''Dec 23'', m_income = Fin 1000, m_expense = Fin 0,
        m_surplus = Fin 1000, m_sortKey = Fin 1701388800000\<rparr>,
      \<lparr>m_month = ''Jan 24'', m_income = Fin 2500, m_expense = Fin 40,
        m_surplus = Fin 2460, m_sortKey = Fin 1704067200000\<rparr>]"
  unfolding monthlyData_def months_txs_def monthly_fold_months
  by (simp add: js_sort_def js_sub_positive_iff)

text \<open>
  The label has two digits for the year: October 1923 and October 2023 are both
  \<open>Oct 23\<close>, and the series holds one entry for the two months, with the first-of-month
  instant of whichever comes first in the list.
\<close>

lemma monthlyData_century:
  "monthlyData utc_host [tx9, tx10] =
     [\<lparr>m_month = ''Oct 23'', m_income = Fin 5, m_expense = Fin 3,
        m_surplus = Fin 2, m_sortKey = Fin (- 1459641600000)\<rparr>]"
  "monthlyData utc_host [tx10, tx9] =
     [\<lparr>m_month = ''Oct 23'', m_income = Fin 5, m_expense = Fin 3,
        m_surplus = Fin 2, m_sortKey = Fin 1696118400000\<rparr>]"
  "month_key utc_host (date tx9) \<noteq> month_key utc_host (date tx10)"
  by (simp_all add: monthlyData_def month_step_def monthKey_samples sortKey_samples
      month_apply_def js_sub_def rnd_months js_sort_def month_key_samples)

lemma monthly_fold_tenths:
  "foldl (month_step utc_host) [] tenths =
     [\<lparr>m_month = ''Jan 24'',
        m_income = Fin (1351079888211149 / 4503599627370496),
        m_expense = Fin (5404319552844595 / 18014398509481984),
        m_surplus = Fin (1 / 36028797018963968),
        m_sortKey = Fin 1704067200000\<rparr>]"
  by (simp add: tenths_def mk_tx_def month_step_def monthKey_samples sortKey_samples
      month_apply_def parseFloat_tenths tenths_sums del: js_add.simps)

text \<open>
  C6, as stated: each month carries its surplus, income minus expense. The surplus is a
  running signed sum of its own, and in binary64 the two differ for a January with the
  amounts 0.1 (income), 0.3 (expense), 0.2 (income): the surplus is \<open>2 ^ -55\<close> and the
  income minus the expense is \<open>2 ^ -54\<close>.
\<close>

theorem C6_surplus_differs_on_tenths:
  "map m_month (monthlyData utc_host tenths) = [''Jan 24'']
   \<and> map m_surplus (monthlyData utc_host tenths) = [Fin (1 / 36028797018963968)]
   \<and> map (\<lambda>e. js_sub (m_income e) (m_expense e)) (monthlyData utc_host tenths)
       = [Fin (1 / 18014398509481984)]"
  unfolding monthlyData_def monthly_fold_tenths
  by (simp add: js_sort_def tenths_sums)

text \<open>
  A date that cannot be read has the label \<open>Invalid Date\<close> and the sort key \<open>NaN\<close>, on
  which the comparator orders nothing: January 2024 stays before December 2023.
\<close>

lemma monthlyData_unreadable_date:
  "map m_month (monthlyData utc_host [tx1, tx_undated, tx8]) = [''Jan 24'', ''Invalid Date'', ''Dec 23'']"
proof -
  have u: "amount tx_undated = Fin 1" "date tx_undated = []" "tx_type tx_undated = EXPENSE"
    by (simp_all add: tx_undated_def mk_tx_def)
  have p: "utc_parse [] = None"
    by (simp add: utc_parse_eval)
  have k: "monthKey_of utc_host [] = ''Invalid Date''" "sortKey_of utc_host [] = NaN"
    by (simp_all add: monthKey_of_def sortKey_of_def p)
  have "foldl (month_step utc_host) [] [tx1, tx_undated, tx8] =
     [\<lparr>m_month = ''Jan 24'', m_income = Fin 0, m_expense = Fin 40,
        m_surplus = Fin (- 40), m_sortKey = Fin 1704067200000\<rparr>,
      \<lparr>m_month = ''Invalid Date'', m_income = Fin 0, m_expense = Fin 1,
        m_surplus = Fin (- 1), m_sortKey = NaN\<rparr>,
      \<lparr>m_month = ''Dec 23'', m_income = Fin 1000, m_expense = Fin 0,
        m_surplus = Fin 1000, m_sortKey = Fin 1701388800000\<rparr>]"
    by (simp add: month_step_def monthKey_samples sortKey_samples k u month_apply_def js_sub_def
        rnd_small rnd_months) (simp add: rnd_eval)
  then show ?thesis
    by (simp add: monthlyData_def js_sort_def js_sub_def js_gt_def)
qed

lemma monthlyData_ascending:
  assumes "valid_dates h txs"
  shows "sorted_wrt (\<lambda>a b. js_le (m_sortKey a) (m_sortKey b)) (monthlyData h txs)"
proof -
  have "m_sortKey e \<noteq> NaN" if "e \<in> set (foldl (month_step h) [] txs)" for e
    using assms monthly_entries(3) [OF that] by (rule sortKey_not_NaN)
  then have "\<forall>e \<in> set (foldl (month_step h) [] txs). m_sortKey e \<noteq> NaN"
    by blast
  then show ?thesis
    unfolding monthlyData_def by (rule sorted_asc_by_value)
qed

text \<open>
  C6, amended: for every transaction list the series has exactly one entry for each month
  label of the list, and every entry carries, for the transactions under its label, the
  first-of-month instant of the first of them, their income sum, their expense sum, and
  as surplus their running signed sum, which is the income minus the expense whenever
  these three sums carry no rounding error. When every date can be read the series is
  ascending by the first-of-month instant. When the months of the list are told apart by
  their labels and first-of-month instants, every entry is the entry of a calendar month
  of the list; with readable dates the series is then strictly ascending and its months
  (labels and instants) are the same for every order of the list. When the amounts are
  whole numbers with a total of at most \<open>2 ^ 53\<close> every surplus is the income minus the
  expense, and the whole series is the same for every order of the list.
\<close>

theorem C6_monthly_series:
  "distinct (map m_month (monthlyData h txs))
   \<and> set (map m_month (monthlyData h txs)) = set (map (\<lambda>t. monthKey_of h (date t)) txs)
   \<and> list_all (\<lambda>e. label_entry h txs e
         \<and> (exact_sums (filter (\<lambda>t. monthKey_of h (date t) = m_month e) txs)
              \<longrightarrow> m_surplus e = js_sub (m_income e) (m_expense e)))
        (monthlyData h txs)
   \<and> (valid_dates h txs \<longrightarrow>
        sorted_wrt (\<lambda>a b. js_le (m_sortKey a) (m_sortKey b)) (monthlyData h txs))
   \<and> (separate_months h txs \<longrightarrow> list_all (entry_of_month h txs) (monthlyData h txs))
   \<and> (valid_dates h txs \<and> separate_months h txs \<longrightarrow>
        sorted_wrt (\<lambda>a b. js_lt (m_sortKey a) (m_sortKey b)) (monthlyData h txs)
        \<and> (mset txs' = mset txs \<longrightarrow>
             map m_month (monthlyData h txs') = map m_month (monthlyData h txs)
             \<and> map m_sortKey (monthlyData h txs') = map m_sortKey (monthlyData h txs)))
   \<and> (exact_amounts txs \<longrightarrow>
        list_all (\<lambda>e. m_surplus e = js_sub (m_income e) (m_expense e)) (monthlyData h txs))
   \<and> (valid_dates h txs \<and> separate_months h txs \<and> exact_amounts txs \<and> mset txs' = mset txs
        \<longrightarrow> monthlyData h txs' = monthlyData h txs)"
proof -
  have s: "set (monthlyData h txs) = set (foldl (month_step h) [] txs)"
    by (simp add: monthlyData_def set_js_sort)
  have "mset (map m_month (monthlyData h txs)) = mset (map m_month (foldl (month_step h) [] txs))"
    by (simp add: monthlyData_def mset_js_sort)
  then have dist: "distinct (map m_month (monthlyData h txs))"
    using monthly_entries(1) [of h txs] by (metis mset_eq_imp_distinct_iff)
  have labels: "set (map m_month (monthlyData h txs)) = set (map (\<lambda>t. monthKey_of h (date t)) txs)"
    using monthly_entries(2) [of h txs] by (simp add: s)
  have entry: "label_entry h txs e" if "e \<in> set (monthlyData h txs)" for e
    using that unfolding s by (rule monthly_entries(3))
  have "label_entry h txs e
        \<and> (exact_sums (filter (\<lambda>t. monthKey_of h (date t) = m_month e) txs)
             \<longrightarrow> m_surplus e = js_sub (m_income e) (m_expense e))"
    if "e \<in> set (monthlyData h txs)" for e
    using entry [OF that] label_entry_surplus_exact [OF entry [OF that]] by blast
  then have entries: "list_all (\<lambda>e. label_entry h txs e
         \<and> (exact_sums (filter (\<lambda>t. monthKey_of h (date t) = m_month e) txs)
              \<longrightarrow> m_surplus e = js_sub (m_income e) (m_expense e)))
        (monthlyData h txs)"
    unfolding list_all_iff by blast
  have asc: "sorted_wrt (\<lambda>a b. js_le (m_sortKey a) (m_sortKey b)) (monthlyData h txs)"
    if "valid_dates h txs"
    using that by (rule monthlyData_ascending)
  have months: "list_all (entry_of_month h txs) (monthlyData h txs)" if "separate_months h txs"
    unfolding list_all_iff using label_entry_month [OF that] entry by blast
  have strict: "sorted_wrt (\<lambda>a b. js_lt (m_sortKey a) (m_sortKey b)) (monthlyData h txs)
        \<and> (mset txs' = mset txs \<longrightarrow>
             map m_month (monthlyData h txs') = map m_month (monthlyData h txs)
             \<and> map m_sortKey (monthlyData h txs') = map m_sortKey (monthlyData h txs))"
    if vs: "valid_dates h txs \<and> separate_months h txs"
  proof -
    have v: "valid_dates h txs" and sep: "separate_months h txs"
      using vs by blast+
    have a: "sorted_wrt (\<lambda>a b. js_lt (m_sortKey a) (m_sortKey b)) (monthlyData h txs)"
      using v sep by (rule monthlyData_strictly_ascending)
    have b: "map m_month (monthlyData h txs') = map m_month (monthlyData h txs)
             \<and> map m_sortKey (monthlyData h txs') = map m_sortKey (monthlyData h txs)"
      if m: "mset txs' = mset txs"
    proof -
      have keys: "map (\<lambda>e. (m_month e, m_sortKey e)) (monthlyData h txs')
                  = map (\<lambda>e. (m_month e, m_sortKey e)) (monthlyData h txs)"
        using v sep m by (rule monthlyData_keys_mset)
      have "map fst (map (\<lambda>e. (m_month e, m_sortKey e)) (monthlyData h txs'))
            = map fst (map (\<lambda>e. (m_month e, m_sortKey e)) (monthlyData h txs))"
        by (simp only: keys)
      moreover have "map snd (map (\<lambda>e. (m_month e, m_sortKey e)) (monthlyData h txs'))
            = map snd (map (\<lambda>e. (m_month e, m_sortKey e)) (monthlyData h txs))"
        by (simp only: keys)
      ultimately show ?thesis
        by (simp add: comp_def)
    qed
    show ?thesis
      using a b by blast
  qed
  have exact: "list_all (\<lambda>e. m_surplus e = js_sub (m_income e) (m_expense e)) (monthlyData h txs)"
    if ex: "exact_amounts txs"
    unfolding list_all_iff using label_entry_surplus [OF ex] entry by blast
  have perm: "monthlyData h txs' = monthlyData h txs"
    if "valid_dates h txs \<and> separate_months h txs \<and> exact_amounts txs \<and> mset txs' = mset txs"
    using that monthlyData_mset [of h txs txs'] by blast
  show ?thesis
    using dist labels entries asc months strict exact perm by blast
qed

lemma month_key_samples_more:
  "month_key utc_host ''2024-01-01T10:00'' = (Some 2024, Some 0)"
  "month_key utc_host ''2024-01-01T11:00'' = (Some 2024, Some 0)"
  by (simp_all add: month_key_def getFullYear_def getMonth_def parse_months fields_months)

lemma hypotheses_months:
  "valid_dates utc_host months_txs" "separate_months utc_host months_txs"
  "exact_amounts months_txs"
  by (simp_all add: months_txs_def valid_dates_def separate_months_def exact_amounts_def
      parse_2024_01_01_0900 parse_samples parse_trend monthKey_samples sortKey_samples
      month_key_samples whole_def val_def)

lemma hypotheses_months_tenths:
  "valid_dates utc_host months_tenths" "separate_months utc_host months_tenths"
  by (simp_all add: months_tenths_def tenths_def mk_tx_def valid_dates_def separate_months_def
      parse_2024_01_01_0900 parse_months parse_trend monthKey_samples sortKey_samples
      month_key_samples month_key_samples_more)

lemma monthlyData_months_tenths:
  "monthlyData utc_host months_tenths =
     [\<lparr>m_month = ''Dec 23'', m_income = Fin 1000, m_expense = Fin 0,
        m_surplus = Fin 1000, m_sortKey = Fin 1701388800000\<rparr>,
      \<lparr>m_month = ''Jan 24'',
        m_income = Fin (1351079888211149 / 4503599627370496),
        m_expense = Fin (5404319552844595 / 18014398509481984),
        m_surplus = Fin (1 / 36028797018963968),
        m_sortKey = Fin 1704067200000\<rparr>]"
proof -
  have "foldl (month_step utc_host) [] months_tenths =
     month_step utc_host (foldl (month_step utc_host) [] tenths) tx8"
    by (simp add: months_tenths_def)
  also have "\<dots> =
     [\<lparr>m_month = ''Jan 24'',
        m_income = Fin (1351079888211149 / 4503599627370496),
        m_expense = Fin (5404319552844595 / 18014398509481984),
        m_surplus = Fin (1 / 36028797018963968),
        m_sortKey = Fin 1704067200000\<rparr>,
      \<lparr>m_month = ''Dec 23'', m_income = Fin 1000, m_expense = Fin 0,
        m_surplus = Fin 1000, m_sortKey = Fin 1701388800000\<rparr>]"
    unfolding monthly_fold_tenths
    by (simp add: month_step_def monthKey_samples sortKey_samples month_apply_def rnd_months)
  finally show ?thesis
    by (simp add: monthlyData_def js_sort_def js_sub_positive_iff)
qed

theorem C6_monthly_series_witness:
  "valid_dates utc_host months_txs \<and> separate_months utc_host months_txs
   \<and> exact_amounts months_txs \<and> mset [tx2, tx8, tx1] = mset months_txs
   \<and> months_txs = [tx1, tx8, tx2]
   \<and> monthlyData utc_host months_txs =
       [\<lparr>m_month = ''Dec 23'', m_income = Fin 1000, m_expense = Fin 0,
          m_surplus = Fin 1000, m_sortKey = Fin 1701388800000\<rparr>,
        \<lparr>m_month = ''Jan 24'', m_income = Fin 2500, m_expense = Fin 40,
          m_surplus = Fin 2460, m_sortKey = Fin 1704067200000\<rparr>]
   \<and> monthlyData utc_host [tx2, tx8, tx1] = monthlyData utc_host months_txs
   \<and> list_all (entry_of_month utc_host months_txs) (monthlyData utc_host months_txs)
   \<and> valid_dates utc_host months_tenths \<and> separate_months utc_host months_tenths
   \<and> map m_month (monthlyData utc_host months_tenths) = [''Dec 23'', ''Jan 24'']
   \<and> map m_month (monthlyData utc_host (rev months_tenths)) = [''Dec 23'', ''Jan 24'']
   \<and> list_all (entry_of_month utc_host months_tenths) (monthlyData utc_host months_tenths)"
proof -
  have m: "mset [tx2, tx8, tx1] = mset months_txs"
    by (simp add: months_txs_def)
  from C6_monthly_series [of utc_host months_txs "[tx2, tx8, tx1]"] hypotheses_months m
  have whole: "monthlyData utc_host [tx2, tx8, tx1] = monthlyData utc_host months_txs"
    "list_all (entry_of_month utc_host months_txs) (monthlyData utc_host months_txs)"
    by blast+
  have r: "mset (rev months_tenths) = mset months_tenths"
    by simp
  from C6_monthly_series [of utc_host months_tenths "rev months_tenths"] hypotheses_months_tenths r
  have tenths: "map m_month (monthlyData utc_host (rev months_tenths))
        = map m_month (monthlyData utc_host months_tenths)"
    "list_all (entry_of_month utc_host months_tenths) (monthlyData utc_host months_tenths)"
    by blast+
  have labels: "map m_month (monthlyData utc_host months_tenths) = [''Dec 23'', ''Jan 24'']"
    by (simp add: monthlyData_months_tenths)
  have a: "months_txs = [tx1, tx8, tx2]"
    by (simp add: months_txs_def)
  show ?thesis
    using hypotheses_months m a monthlyData_months whole hypotheses_months_tenths labels
      tenths(2) tenths(1) [unfolded labels]
    by blast
qed

end
